theory Spec2Isabelle
  imports Complex_Main
begin

section \<open>The environment of the script\<close>

text \<open>
  \<^verbatim>\<open>script.py\<close> is a command dispatcher over three collaborators: the file system,
  PyPDF2 (reader, writer, merger, page objects) and the reportlab canvas. Each method of
  \<^verbatim>\<open>PDFTool\<close> is embedded as a function from the file system before the call to the
  value it returns and the file system after the call. The collaborators are modelled
  only as far as the script observes them.
\<close>

subsection \<open>Exceptions and return values\<close>

text \<open>The Python exceptions that the modelled calls can raise.\<close>

datatype exn =
    FileNotFoundError
  | IsADirectoryError
  | NotADirectoryError
  | FileExistsError
  | PdfReadError
  | ValueError
  | IndexError

text \<open>
  Every method returns a \<^verbatim>\<open>bool\<close> and, when it returns \<^verbatim>\<open>False\<close>, logs one of
  three kinds of message. The outcome keeps the kind: \<open>FileNotFound\<close> for
  "File not found"/"Input file not found", \<open>InvalidAngle\<close> for
  "Angle must be a multiple of 90 degrees", and \<open>Failure e\<close> for the
  \<^verbatim>\<open>except Exception as e\<close> handler. \<open>returned\<close> is the Python return value.
\<close>

datatype outcome = Success | FileNotFound | InvalidAngle | Failure exn

definition returned :: "outcome \<Rightarrow> bool" where
  "returned r = (r = Success)"

subsection \<open>Content streams and pages\<close>

text \<open>
  The drawing operators that the script emits through the canvas. Coordinates and sizes
  are the integer-valued floats of the source; the alpha \<^verbatim>\<open>0.3\<close> is kept as a rational.
\<close>

datatype cs_op =
    SetFont string nat
  | SetFillAlpha rat
  | RotateCTM int
  | DrawString int int string

text \<open>
  A page object as far as the script and the claims observe it: its content stream, its
  \<^verbatim>\<open>/MediaBox\<close> and its \<^verbatim>\<open>/Rotate\<close> entry.
\<close>

record page =
  contents :: "cs_op list"
  mediabox :: "int \<times> int \<times> int \<times> int"
  rotation :: int

subsection \<open>The file system\<close>

text \<open>
  A path is the list of its components (the \<^verbatim>\<open>parts\<close> of pathlib) below the working
  directory, which is the empty path and always a directory. A file holds a PDF
  document, given by its pages in reading order, or a damaged PDF, or something that is
  not a PDF; the empty file is \<open>TextData []\<close>. A damaged PDF is one whose trailer and page
  tree parse while its page objects do not all resolve: it can be opened, and copying its
  pages raises.
\<close>

type_synonym path = "string list"

datatype file_data = PdfData "page list" | DamagedPdf | TextData string

datatype node = Dir | File file_data

type_synonym fs = "path \<Rightarrow> node option"

definition node_at :: "fs \<Rightarrow> path \<Rightarrow> node option" where
  "node_at fs p = (if p = [] then Some Dir else fs p)"

text \<open>\<^verbatim>\<open>os.path.exists\<close>: true of files and of directories.\<close>

definition path_exists :: "fs \<Rightarrow> path \<Rightarrow> bool" where
  "path_exists fs p = (node_at fs p \<noteq> None)"

text \<open>\<^verbatim>\<open>os.path.join(output_dir, output_filename)\<close> for a plain file name.\<close>

definition path_join :: "path \<Rightarrow> string \<Rightarrow> path" where
  "path_join d name = d @ [name]"

text \<open>\<^verbatim>\<open>open(p, 'rb')\<close> followed by reading the file.\<close>

definition open_read :: "fs \<Rightarrow> path \<Rightarrow> exn + file_data" where
  "open_read fs p =
     (case node_at fs p of
        None \<Rightarrow> Inl FileNotFoundError
      | Some Dir \<Rightarrow> Inl IsADirectoryError
      | Some (File d) \<Rightarrow> Inr d)"

text \<open>
  \<^verbatim>\<open>open(p, 'wb')\<close> or \<^verbatim>\<open>open(p, 'w')\<close>: the path must not be a directory and its parent
  must be one.
\<close>

definition open_write :: "fs \<Rightarrow> path \<Rightarrow> exn + unit" where
  "open_write fs p =
     (case node_at fs p of
        Some Dir \<Rightarrow> Inl IsADirectoryError
      | _ \<Rightarrow>
         (case node_at fs (butlast p) of
            None \<Rightarrow> Inl FileNotFoundError
          | Some (File d) \<Rightarrow> Inl NotADirectoryError
          | Some Dir \<Rightarrow> Inr ()))"

definition write_file :: "fs \<Rightarrow> path \<Rightarrow> file_data \<Rightarrow> exn + fs" where
  "write_file fs p d =
     (case open_write fs p of
        Inl e \<Rightarrow> Inl e
      | Inr u \<Rightarrow> Inr (fs(p \<mapsto> File d)))"

text \<open>\<^verbatim>\<open>os.remove\<close>.\<close>

definition os_remove :: "fs \<Rightarrow> path \<Rightarrow> exn + fs" where
  "os_remove fs p =
     (case node_at fs p of
        None \<Rightarrow> Inl FileNotFoundError
      | Some Dir \<Rightarrow> Inl IsADirectoryError
      | Some (File d) \<Rightarrow> Inr (fs(p := None)))"

text \<open>
  \<^verbatim>\<open>Path(p).mkdir(parents=True, exist_ok=True)\<close>: an existing directory is accepted, an
  existing file is not; a missing parent is created first, by the same rule.
\<close>

function mkdir_parents :: "fs \<Rightarrow> path \<Rightarrow> exn + fs" where
  "mkdir_parents fs p =
     (case node_at fs p of
        Some Dir \<Rightarrow> Inr fs
      | Some (File d) \<Rightarrow> Inl FileExistsError
      | None \<Rightarrow>
         (case node_at fs (butlast p) of
            Some Dir \<Rightarrow> Inr (fs(p \<mapsto> Dir))
          | Some (File d) \<Rightarrow> Inl NotADirectoryError
          | None \<Rightarrow>
             (case mkdir_parents fs (butlast p) of
                Inl e \<Rightarrow> Inl e
              | Inr fs' \<Rightarrow> Inr (fs'(p \<mapsto> Dir)))))"
  by pat_completeness auto
termination
  by (relation "measure (\<lambda>(fs, p). length p)")
     (auto simp: node_at_def split: if_splits)

declare mkdir_parents.simps [simp del]

subsection \<open>Strings\<close>

text \<open>\<^verbatim>\<open>str(n)\<close> for a non-negative integer: its decimal digits.\<close>

definition digit_char :: "nat \<Rightarrow> char" where
  "digit_char d = char_of (48 + d)"

function str_nat :: "nat \<Rightarrow> string" where
  "str_nat n =
     (if n < 10 then [digit_char n]
      else str_nat (n div 10) @ [digit_char (n mod 10)])"
  by pat_completeness auto
termination
  by (relation "measure id") auto

declare str_nat.simps [simp del]

text \<open>\<^verbatim>\<open>s.split('\n')\<close>: always at least one piece.\<close>

fun split_nl :: "string \<Rightarrow> string list" where
  "split_nl [] = [[]]"
| "split_nl (c # cs) =
     (if c = CHR 0x0A then [] # split_nl cs
      else (c # hd (split_nl cs)) # tl (split_nl cs))"

text \<open>\<^verbatim>\<open>"\n".join(xs)\<close>.\<close>

fun join_nl :: "string list \<Rightarrow> string" where
  "join_nl [] = []"
| "join_nl [x] = x"
| "join_nl (x # y # ys) = x @ [CHR 0x0A] @ join_nl (y # ys)"

text \<open>
  \<^verbatim>\<open>Path(p).stem\<close>: the last component without its final suffix; a suffix starts at the
  last dot, which must be neither the first nor the last character of the name.
\<close>

definition rfind_dot :: "string \<Rightarrow> nat option" where
  "rfind_dot s =
     (if CHR ''.'' \<in> set s
      then Some (length s - 1 - length (takeWhile (\<lambda>c. c \<noteq> CHR ''.'') (rev s)))
      else None)"

definition stem_of_name :: "string \<Rightarrow> string" where
  "stem_of_name s =
     (case rfind_dot s of
        None \<Rightarrow> s
      | Some i \<Rightarrow> if 0 < i \<and> i < length s - 1 then take i s else s)"

definition path_stem :: "path \<Rightarrow> string" where
  "path_stem p = (if p = [] then [] else stem_of_name (last p))"

subsection \<open>PyPDF2\<close>

text \<open>
  \<^verbatim>\<open>PdfReader(file)\<close> with the pages copied out of it: the pages of a PDF file, an
  exception for anything else. This is the reader of the operations that copy the pages
  (\<^verbatim>\<open>writer.add_page\<close>, \<^verbatim>\<open>page.merge_page\<close>, \<^verbatim>\<open>page.extract_text\<close>) before they open
  their output; the page list is the one the file holds at that moment, and a damaged
  file fails as a whole.
\<close>

definition read_pdf :: "fs \<Rightarrow> path \<Rightarrow> exn + page list" where
  "read_pdf fs p =
     (case open_read fs p of
        Inl e \<Rightarrow> Inl e
      | Inr (PdfData ps) \<Rightarrow> Inr ps
      | Inr DamagedPdf \<Rightarrow> Inl PdfReadError
      | Inr (TextData s) \<Rightarrow> Inl PdfReadError)"

text \<open>
  \<^verbatim>\<open>merger.append(file_path)\<close>: the merger opens the file, parses its trailer and page
  tree, and keeps the file open; the pages themselves are not copied yet. A damaged PDF
  passes, a file that is not a PDF does not.
\<close>

definition merger_append :: "fs \<Rightarrow> path \<Rightarrow> exn + unit" where
  "merger_append fs p =
     (case open_read fs p of
        Inl e \<Rightarrow> Inl e
      | Inr (PdfData ps) \<Rightarrow> Inr ()
      | Inr DamagedPdf \<Rightarrow> Inr ()
      | Inr (TextData s) \<Rightarrow> Inl PdfReadError)"

text \<open>
  The page copying of \<^verbatim>\<open>merger.write\<close>: the pages of every appended source, in the order
  of the appends, read from the files as they are when the document is written.
\<close>

fun merger_pages :: "fs \<Rightarrow> path list \<Rightarrow> exn + page list" where
  "merger_pages fs [] = Inr []"
| "merger_pages fs (source # rest) =
     (case read_pdf fs source of
        Inl e \<Rightarrow> Inl e
      | Inr ps \<Rightarrow>
         (case merger_pages fs rest of
            Inl e \<Rightarrow> Inl e
          | Inr qs \<Rightarrow> Inr (ps @ qs)))"

text \<open>\<^verbatim>\<open>with open(p, 'wb') as output: writer.write(output)\<close>.\<close>

definition write_pdf :: "fs \<Rightarrow> path \<Rightarrow> page list \<Rightarrow> exn + fs" where
  "write_pdf fs p ps = write_file fs p (PdfData ps)"

text \<open>
  \<^verbatim>\<open>page.rotate(angle)\<close>: PyPDF2 refuses an angle that is not a multiple of 90 and
  otherwise adds the angle to the page's \<^verbatim>\<open>/Rotate\<close> entry, leaving everything else.
\<close>

definition page_rotate :: "page \<Rightarrow> int \<Rightarrow> exn + page" where
  "page_rotate p angle =
     (if angle mod 90 \<noteq> 0 then Inl ValueError
      else Inr (p\<lparr>rotation := rotation p + angle\<rparr>))"

text \<open>
  \<^verbatim>\<open>page.merge_page(page2)\<close>: the operators of \<open>page2\<close> are appended to the page's
  content stream, so that they are drawn last.
\<close>

definition merge_page :: "page \<Rightarrow> page \<Rightarrow> page" where
  "merge_page p page2 = p\<lparr>contents := contents p @ contents page2\<rparr>"

subsection \<open>The reportlab canvas\<close>

text \<open>
  The canvas collects the operators of the current page in \<open>code\<close>; \<^verbatim>\<open>showPage\<close>
  closes the page and advances the page counter, which starts at 1; \<^verbatim>\<open>save\<close> closes
  a non-empty current page and writes the document.
\<close>

record canvas =
  filename :: path
  pagesize :: "int \<times> int"
  finished :: "cs_op list list"
  code :: "cs_op list"
  pageNumber :: nat

definition letter :: "int \<times> int" where
  "letter = (612, 792)"

definition Canvas :: "path \<Rightarrow> int \<times> int \<Rightarrow> canvas" where
  "Canvas fn sz = \<lparr>filename = fn, pagesize = sz, finished = [], code = [], pageNumber = 1\<rparr>"

definition emit :: "cs_op \<Rightarrow> canvas \<Rightarrow> canvas" where
  "emit x c = c\<lparr>code := code c @ [x]\<rparr>"

definition setFont :: "string \<Rightarrow> nat \<Rightarrow> canvas \<Rightarrow> canvas" where
  "setFont name pt c = emit (SetFont name pt) c"

definition setFillAlpha :: "rat \<Rightarrow> canvas \<Rightarrow> canvas" where
  "setFillAlpha a c = emit (SetFillAlpha a) c"

definition rotate :: "int \<Rightarrow> canvas \<Rightarrow> canvas" where
  "rotate theta c = emit (RotateCTM theta) c"

definition drawString :: "int \<Rightarrow> int \<Rightarrow> string \<Rightarrow> canvas \<Rightarrow> canvas" where
  "drawString x y text c = emit (DrawString x y text) c"

definition showPage :: "canvas \<Rightarrow> canvas" where
  "showPage c =
     c\<lparr>finished := finished c @ [code c], code := [], pageNumber := pageNumber c + 1\<rparr>"

definition getPageNumber :: "canvas \<Rightarrow> nat" where
  "getPageNumber c = pageNumber c"

definition canvas_page :: "int \<times> int \<Rightarrow> cs_op list \<Rightarrow> page" where
  "canvas_page sz ops = \<lparr>contents = ops, mediabox = (0, 0, fst sz, snd sz), rotation = 0\<rparr>"

definition save :: "fs \<Rightarrow> canvas \<Rightarrow> exn + fs" where
  "save fs c =
     (let c' = (if code c \<noteq> [] then showPage c else c)
      in write_pdf fs (filename c') (map (canvas_page (pagesize c')) (finished c')))"

section \<open>The operations of \<^verbatim>\<open>PDFTool\<close>\<close>

subsection \<open>\<^verbatim>\<open>merge_pdfs\<close>\<close>

text \<open>
  The loop over \<^verbatim>\<open>input_files\<close>: a missing file returns at once, a file that
  \<^verbatim>\<open>merger.append\<close> does not accept raises; the merger records the appended sources in
  input order.
\<close>

fun merge_loop :: "fs \<Rightarrow> path list \<Rightarrow> path list \<Rightarrow> outcome + path list" where
  "merge_loop fs merger [] = Inr merger"
| "merge_loop fs merger (file_path # rest) =
     (if \<not> path_exists fs file_path then Inl FileNotFound
      else case merger_append fs file_path of
             Inl e \<Rightarrow> Inl (Failure e)
           | Inr u \<Rightarrow> merge_loop fs (merger @ [file_path]) rest)"

text \<open>
  After the loop, \<^verbatim>\<open>open(output_file, 'wb')\<close> creates or truncates the output, and only
  then \<^verbatim>\<open>merger.write\<close> copies the pages of the sources. When the copying raises, the
  handler returns \<^verbatim>\<open>False\<close> and the output stays as the \<^verbatim>\<open>open\<close> left it: empty. An
  output that is also a source has been emptied by the \<^verbatim>\<open>open\<close> before it is read.
\<close>

definition merge_pdfs :: "fs \<Rightarrow> path list \<Rightarrow> path \<Rightarrow> outcome \<times> fs" where
  "merge_pdfs fs input_files output_file =
     (case merge_loop fs [] input_files of
        Inl r \<Rightarrow> (r, fs)
      | Inr merger \<Rightarrow>
         (case open_write fs output_file of
            Inl e \<Rightarrow> (Failure e, fs)
          | Inr u \<Rightarrow>
             (let fs1 = fs(output_file \<mapsto> File (TextData []))
              in case merger_pages fs1 merger of
                   Inl e \<Rightarrow> (Failure e, fs1)
                 | Inr pages \<Rightarrow> (Success, fs1(output_file \<mapsto> File (PdfData pages))))))"

subsection \<open>\<^verbatim>\<open>split_pdf\<close>\<close>

text \<open>\<^verbatim>\<open>range(0, n, k)\<close>: a zero step raises, a negative step gives nothing.\<close>

function range_from :: "nat \<Rightarrow> nat \<Rightarrow> nat \<Rightarrow> nat list" where
  "range_from i n k = (if k = 0 \<or> n \<le> i then [] else i # range_from (i + k) n k)"
  by pat_completeness auto
termination
  by (relation "measure (\<lambda>(i, n, k). n - i)") auto

declare range_from.simps [simp del]

definition py_range :: "nat \<Rightarrow> int \<Rightarrow> exn + nat list" where
  "py_range n k =
     (if k = 0 then Inl ValueError
      else if k < 0 then Inr []
      else Inr (range_from 0 n (nat k)))"

text \<open>The name of the chunk that starts at page index \<open>i\<close> and ends before \<open>end_page\<close>.\<close>

definition output_filename :: "string \<Rightarrow> int \<Rightarrow> nat \<Rightarrow> nat \<Rightarrow> string" where
  "output_filename base_name pages_per_file i end_page =
     (if pages_per_file = 1
      then base_name @ ''_page_'' @ str_nat (i + 1) @ ''.pdf''
      else base_name @ ''_pages_'' @ str_nat (i + 1) @ ''-'' @ str_nat end_page @ ''.pdf'')"

text \<open>One iteration of the outer loop: collect the pages of the chunk and write them.\<close>

definition split_chunk :: "fs \<Rightarrow> page list \<Rightarrow> path \<Rightarrow> path \<Rightarrow> int \<Rightarrow> nat \<Rightarrow> exn + fs" where
  "split_chunk fs pages input_file output_dir pages_per_file i =
     (let total_pages = length pages;
          end_page = min (i + nat pages_per_file) total_pages;
          writer = map (\<lambda>page_num. pages ! page_num) [i..<end_page];
          base_name = path_stem input_file;
          output_path =
            path_join output_dir (output_filename base_name pages_per_file i end_page)
      in write_pdf fs output_path writer)"

fun split_loop :: "fs \<Rightarrow> page list \<Rightarrow> path \<Rightarrow> path \<Rightarrow> int \<Rightarrow> nat list \<Rightarrow> exn option \<times> fs" where
  "split_loop fs pages input_file output_dir pages_per_file [] = (None, fs)"
| "split_loop fs pages input_file output_dir pages_per_file (i # rest) =
     (case split_chunk fs pages input_file output_dir pages_per_file i of
        Inl e \<Rightarrow> (Some e, fs)
      | Inr fs' \<Rightarrow> split_loop fs' pages input_file output_dir pages_per_file rest)"

definition split_pdf :: "fs \<Rightarrow> path \<Rightarrow> path \<Rightarrow> int \<Rightarrow> outcome \<times> fs" where
  "split_pdf fs input_file output_dir pages_per_file =
     (if \<not> path_exists fs input_file then (FileNotFound, fs)
      else case mkdir_parents fs output_dir of
        Inl e \<Rightarrow> (Failure e, fs)
      | Inr fs1 \<Rightarrow>
         (case read_pdf fs1 input_file of
            Inl e \<Rightarrow> (Failure e, fs1)
          | Inr pages \<Rightarrow>
             (case py_range (length pages) pages_per_file of
                Inl e \<Rightarrow> (Failure e, fs1)
              | Inr starts \<Rightarrow>
                 (case split_loop fs1 pages input_file output_dir pages_per_file starts of
                    (Some e, fs2) \<Rightarrow> (Failure e, fs2)
                  | (None, fs2) \<Rightarrow> (Success, fs2)))))"

subsection \<open>\<^verbatim>\<open>extract_text\<close>\<close>

text \<open>
  \<^verbatim>\<open>page.extract_text()\<close> is a parameter, \<open>page_text\<close>. The entry of a page is
  \<^verbatim>\<open>f"=== Page {page_num} ===\n{text}\n"\<close>, with \<open>page_num\<close> counted from 1.
\<close>

definition text_entry :: "nat \<Rightarrow> string \<Rightarrow> string" where
  "text_entry page_num text =
     ''=== Page '' @ str_nat page_num @ '' ==='' @ [CHR 0x0A] @ text @ [CHR 0x0A]"

definition text_content :: "(page \<Rightarrow> string) \<Rightarrow> page list \<Rightarrow> string list" where
  "text_content page_text pages =
     map (\<lambda>(page_num, page). text_entry page_num (page_text page)) (enumerate 1 pages)"

text \<open>
  The result is the outcome, the file system and what was printed. \<open>output_file\<close> is
  \<open>None\<close> when the argument is \<^verbatim>\<open>None\<close> or empty.
\<close>

definition extract_text ::
  "(page \<Rightarrow> string) \<Rightarrow> fs \<Rightarrow> path \<Rightarrow> path option \<Rightarrow> outcome \<times> fs \<times> string list" where
  "extract_text page_text fs input_file output_file =
     (if \<not> path_exists fs input_file then (FileNotFound, fs, [])
      else case read_pdf fs input_file of
        Inl e \<Rightarrow> (Failure e, fs, [])
      | Inr pages \<Rightarrow>
         (let full_text = join_nl (text_content page_text pages)
          in case output_file of
               Some f \<Rightarrow>
                 (case write_file fs f (TextData full_text) of
                    Inl e \<Rightarrow> (Failure e, fs, [])
                  | Inr fs' \<Rightarrow> (Success, fs', []))
             | None \<Rightarrow> (Success, fs, [full_text])))"

subsection \<open>\<^verbatim>\<open>rotate_pdf\<close>\<close>

text \<open>The loop \<^verbatim>\<open>for page in reader.pages: writer.add_page(page.rotate(angle))\<close>.\<close>

fun rotate_pages :: "int \<Rightarrow> page list \<Rightarrow> exn + page list" where
  "rotate_pages angle [] = Inr []"
| "rotate_pages angle (p # ps) =
     (case page_rotate p angle of
        Inl e \<Rightarrow> Inl e
      | Inr rotated_page \<Rightarrow>
         (case rotate_pages angle ps of
            Inl e \<Rightarrow> Inl e
          | Inr writer \<Rightarrow> Inr (rotated_page # writer)))"

definition rotate_pdf :: "fs \<Rightarrow> path \<Rightarrow> int \<Rightarrow> path \<Rightarrow> outcome \<times> fs" where
  "rotate_pdf fs input_file angle output_file =
     (if \<not> path_exists fs input_file then (FileNotFound, fs)
      else if angle mod 90 \<noteq> 0 then (InvalidAngle, fs)
      else case read_pdf fs input_file of
        Inl e \<Rightarrow> (Failure e, fs)
      | Inr pages \<Rightarrow>
         (case rotate_pages angle pages of
            Inl e \<Rightarrow> (Failure e, fs)
          | Inr writer \<Rightarrow>
             (case write_pdf fs output_file writer of
                Inl e \<Rightarrow> (Failure e, fs)
              | Inr fs' \<Rightarrow> (Success, fs'))))"

subsection \<open>\<^verbatim>\<open>add_watermark\<close>\<close>

definition watermark_file :: path where
  "watermark_file = [''temp_watermark.pdf'']"

text \<open>The canvas calls that build the overlay, up to \<^verbatim>\<open>c.save()\<close>.\<close>

definition watermark_canvas :: "string \<Rightarrow> canvas" where
  "watermark_canvas watermark_text =
     drawString 200 200 watermark_text
       (rotate 45
         (setFillAlpha (3 / 10)
           (setFont ''Helvetica'' 50
             (Canvas watermark_file letter))))"

text \<open>
  The temporary file is written before the input is read, and removed by the last
  statement of the \<^verbatim>\<open>try\<close> block; the \<^verbatim>\<open>except\<close> handler only logs and returns.
\<close>

definition add_watermark :: "fs \<Rightarrow> path \<Rightarrow> string \<Rightarrow> path \<Rightarrow> outcome \<times> fs" where
  "add_watermark fs input_file watermark_text output_file =
     (if \<not> path_exists fs input_file then (FileNotFound, fs)
      else case save fs (watermark_canvas watermark_text) of
        Inl e \<Rightarrow> (Failure e, fs)
      | Inr fs1 \<Rightarrow>
         (case read_pdf fs1 input_file of
            Inl e \<Rightarrow> (Failure e, fs1)
          | Inr pages \<Rightarrow>
             (case read_pdf fs1 watermark_file of
                Inl e \<Rightarrow> (Failure e, fs1)
              | Inr [] \<Rightarrow> (Failure IndexError, fs1)
              | Inr (watermark_page # others) \<Rightarrow>
                 (case write_pdf fs1 output_file
                         (map (\<lambda>page. merge_page page watermark_page) pages) of
                    Inl e \<Rightarrow> (Failure e, fs1)
                  | Inr fs2 \<Rightarrow>
                     (case os_remove fs2 watermark_file of
                        Inl e \<Rightarrow> (Failure e, fs2)
                      | Inr fs3 \<Rightarrow> (Success, fs3))))))"

subsection \<open>\<^verbatim>\<open>create_sample_pdf\<close>\<close>

text \<open>
  The loop over the lines of the content: a line that would start below \<open>y = 50\<close> opens
  a new page first. The loop carries the canvas and \<open>y_position\<close>.
\<close>

fun draw_lines :: "canvas \<Rightarrow> int \<Rightarrow> string list \<Rightarrow> canvas" where
  "draw_lines c y_position [] = c"
| "draw_lines c y_position (line # rest) =
     (if y_position < 50
      then draw_lines (drawString 100 (snd letter - 50) line (showPage c))
             (snd letter - 50 - 20) rest
      else draw_lines (drawString 100 y_position line c) (y_position - 20) rest)"

text \<open>The label \<^verbatim>\<open>f"Page {n}"\<close> drawn at \<^verbatim>\<open>(width - 100, 30)\<close>.\<close>

definition page_label :: "nat \<Rightarrow> cs_op" where
  "page_label n = DrawString (fst letter - 100) 30 (''Page '' @ str_nat n)"

definition sample_canvas :: "path \<Rightarrow> string \<Rightarrow> canvas" where
  "sample_canvas output_file content =
     (let c0 = Canvas output_file letter;
          c1 = drawString 100 (snd letter - 100) ''Sample PDF Document''
                 (setFont ''Helvetica-Bold'' 24 c0);
          c2 = draw_lines (setFont ''Helvetica'' 12 c1) (snd letter - 150) (split_nl content);
          c3 = setFont ''Helvetica'' 10 c2
      in drawString (fst letter - 100) 30 (''Page '' @ str_nat (getPageNumber c3)) c3)"

definition create_sample_pdf :: "fs \<Rightarrow> path \<Rightarrow> string \<Rightarrow> outcome \<times> fs" where
  "create_sample_pdf fs output_file content =
     (case save fs (sample_canvas output_file content) of
        Inl e \<Rightarrow> (Failure e, fs)
      | Inr fs' \<Rightarrow> (Success, fs'))"

section \<open>Notions used by the properties\<close>

text \<open>
  The path at which \<^verbatim>\<open>split_pdf\<close> writes the chunk that starts at page index \<open>i\<close> of a
  document with \<open>n\<close> pages, and the chunk paths in the order of the loop.
\<close>

definition chunk_path :: "path \<Rightarrow> path \<Rightarrow> int \<Rightarrow> nat \<Rightarrow> nat \<Rightarrow> path" where
  "chunk_path input_file output_dir pages_per_file n i =
     path_join output_dir
       (output_filename (path_stem input_file) pages_per_file i (min (i + nat pages_per_file) n))"

definition chunk_paths :: "path \<Rightarrow> path \<Rightarrow> int \<Rightarrow> nat \<Rightarrow> path list" where
  "chunk_paths input_file output_dir pages_per_file n =
     map (chunk_path input_file output_dir pages_per_file n)
       (range_from 0 n (nat pages_per_file))"

text \<open>
  A file system is well formed when the parent of every node is a directory.
\<close>

definition fs_ok :: "fs \<Rightarrow> bool" where
  "fs_ok fs = (\<forall>p. fs p \<noteq> None \<longrightarrow> node_at fs (butlast p) = Some Dir)"

text \<open>The pages of the PDF file at a path, and none when there is no such file.\<close>

definition pages_at :: "fs \<Rightarrow> path \<Rightarrow> page list" where
  "pages_at fs p = (case read_pdf fs p of Inr ps \<Rightarrow> ps | Inl e \<Rightarrow> [])"

text \<open>The operators of the overlay page that \<^verbatim>\<open>add_watermark\<close> builds for a text.\<close>

definition overlay_ops :: "string \<Rightarrow> cs_op list" where
  "overlay_ops watermark_text =
     [SetFont ''Helvetica'' 50, SetFillAlpha (3 / 10), RotateCTM 45,
      DrawString 200 200 watermark_text]"

text \<open>
  The operators of a page that draw a string at the position of the page-number label,
  \<^verbatim>\<open>(width - 100, 30)\<close>.
\<close>

fun at_label_position :: "cs_op \<Rightarrow> bool" where
  "at_label_position (DrawString x y text) = (x = fst letter - 100 \<and> y = 30)"
| "at_label_position (SetFont name pt) = False"
| "at_label_position (SetFillAlpha a) = False"
| "at_label_position (RotateCTM theta) = False"

definition labels_on :: "page \<Rightarrow> cs_op list" where
  "labels_on p = filter at_label_position (contents p)"

subsection \<open>Example inputs\<close>

definition good_page :: page where
  "good_page =
     \<lparr>contents = [DrawString 72 720 ''hello''], mediabox = (0, 0, 612, 792), rotation = 0\<rparr>"

definition one_file_fs :: fs where
  "one_file_fs = Map.empty([''a.pdf''] \<mapsto> File (PdfData [good_page]))"

definition bad_input_fs :: fs where
  "bad_input_fs = Map.empty([''bad.pdf''] \<mapsto> File (TextData ''not a pdf''))"

definition text_page :: "string \<Rightarrow> page" where
  "text_page s =
     \<lparr>contents = [DrawString 72 720 s], mediabox = (0, 0, 612, 792), rotation = 0\<rparr>"

definition five_pages :: "page list" where
  "five_pages =
     [text_page ''one'', text_page ''two'', text_page ''three'', text_page ''four'',
      text_page ''five'']"

definition report_fs :: fs where
  "report_fs = Map.empty([''report.pdf''] \<mapsto> File (PdfData five_pages))"

definition report_out_fs :: fs where
  "report_out_fs = report_fs([''out''] \<mapsto> Dir)"

definition damaged_source_fs :: fs where
  "damaged_source_fs =
     Map.empty([''a.pdf''] \<mapsto> File (PdfData [good_page]), [''damaged.pdf''] \<mapsto> File DamagedPdf)"

definition two_pages :: "page list" where
  "two_pages = [text_page ''one'', text_page ''two'']"

definition two_page_fs :: fs where
  "two_page_fs = Map.empty([''doc.pdf''] \<mapsto> File (PdfData two_pages))"

text \<open>A text extractor for the examples: the strings that the page draws, in stream order.\<close>

fun op_text :: "cs_op \<Rightarrow> string" where
  "op_text (DrawString x y text) = text"
| "op_text (SetFont name pt) = []"
| "op_text (SetFillAlpha a) = []"
| "op_text (RotateCTM theta) = []"

definition drawn_text :: "page \<Rightarrow> string" where
  "drawn_text p = concat (map op_text (contents p))"

section \<open>Decimal strings and chunk names\<close>

lemma digit_char_inj: "a < 10 \<Longrightarrow> b < 10 \<Longrightarrow> digit_char a = digit_char b \<Longrightarrow> a = b"
  by (simp add: digit_char_def char_of_eq_iff take_bit_nat_eq_self)

lemma digit_char_not_minus: "d < 10 \<Longrightarrow> digit_char d \<noteq> CHR ''-''"
proof
  assume d: "d < 10" and e: "digit_char d = CHR ''-''"
  have "of_char (digit_char d) = (48 + d) mod 256"
    by (simp add: digit_char_def)
  with e have "(48 + d) mod 256 = (45::nat)" by simp
  with d show False by simp
qed

lemma str_nat_nonempty: "str_nat n \<noteq> []"
  by (subst str_nat.simps) simp

lemma str_nat_inj: "str_nat m = str_nat n \<Longrightarrow> m = n"
proof (induction m arbitrary: n rule: str_nat.induct)
  case (1 m)
  show ?case
  proof (cases "m < 10")
    case True
    show ?thesis
    proof (cases "n < 10")
      case True
      with \<open>m < 10\<close> "1.prems" show ?thesis
        by (simp add: str_nat.simps [of m] str_nat.simps [of n] digit_char_inj)
    next
      case False
      with \<open>m < 10\<close> "1.prems" show ?thesis
        by (simp add: str_nat.simps [of m] str_nat.simps [of n] str_nat_nonempty [THEN not_sym])
    qed
  next
    case False
    show ?thesis
    proof (cases "n < 10")
      case True
      with \<open>\<not> m < 10\<close> "1.prems" show ?thesis
        by (simp add: str_nat.simps [of m] str_nat.simps [of n] str_nat_nonempty)
    next
      case nf: False
      with False "1.prems"
      have a: "str_nat (m div 10) = str_nat (n div 10)"
        and b: "digit_char (m mod 10) = digit_char (n mod 10)"
        by (simp_all add: str_nat.simps [of m] str_nat.simps [of n])
      from "1.IH" [OF False a] have "m div 10 = n div 10" .
      moreover from b have "m mod 10 = n mod 10"
        by (rule digit_char_inj [rotated 2]) simp_all
      ultimately show ?thesis
        by (metis div_mult_mod_eq)
    qed
  qed
qed

lemma str_nat_no_minus: "CHR ''-'' \<notin> set (str_nat n)"
proof (induction n rule: str_nat.induct)
  case (1 n)
  show ?case
  proof (cases "n < 10")
    case True
    then show ?thesis
      using digit_char_not_minus [of n] by (auto simp: str_nat.simps [of n])
  next
    case False
    with "1.IH" show ?thesis
      using digit_char_not_minus [of "n mod 10"] by (auto simp: str_nat.simps [of n])
  qed
qed

lemma digit_char_not_space: "d < 10 \<Longrightarrow> digit_char d \<noteq> CHR '' ''"
proof
  assume d: "d < 10" and e: "digit_char d = CHR '' ''"
  have "of_char (digit_char d) = (48 + d) mod 256"
    by (simp add: digit_char_def)
  with e have "(48 + d) mod 256 = (32::nat)" by simp
  with d show False by simp
qed

lemma str_nat_no_space: "CHR '' '' \<notin> set (str_nat n)"
proof (induction n rule: str_nat.induct)
  case (1 n)
  show ?case
  proof (cases "n < 10")
    case True
    then show ?thesis
      using digit_char_not_space [of n] by (auto simp: str_nat.simps [of n])
  next
    case False
    with "1.IH" show ?thesis
      using digit_char_not_space [of "n mod 10"] by (auto simp: str_nat.simps [of n])
  qed
qed

lemma append_sep_unique:
  "xs @ c # ys = xs' @ c # ys' \<Longrightarrow> c \<notin> set xs \<Longrightarrow> c \<notin> set xs' \<Longrightarrow> xs = xs'"
proof (induction xs arbitrary: xs')
  case Nil
  then show ?case by (cases xs') auto
next
  case (Cons a xs)
  then show ?case by (cases xs') auto
qed

lemma output_filename_inj:
  "output_filename b k i e = output_filename b k i' e' \<Longrightarrow> i = i'"
proof (cases "k = 1")
  case True
  assume "output_filename b k i e = output_filename b k i' e'"
  with True have "str_nat (i + 1) = str_nat (i' + 1)"
    by (simp add: output_filename_def)
  then show ?thesis using str_nat_inj by fastforce
next
  case False
  assume "output_filename b k i e = output_filename b k i' e'"
  with False have "str_nat (i + 1) @ CHR ''-'' # (str_nat e @ ''.pdf'')
      = str_nat (i' + 1) @ CHR ''-'' # (str_nat e' @ ''.pdf'')"
    by (simp add: output_filename_def)
  then have "str_nat (i + 1) = str_nat (i' + 1)"
    by (rule append_sep_unique) (simp_all add: str_nat_no_minus)
  then show ?thesis using str_nat_inj by fastforce
qed

section \<open>Reading and writing files\<close>

lemma read_pdf_Inr_iff:
  "read_pdf fs p = Inr ps \<longleftrightarrow> node_at fs p = Some (File (PdfData ps))"
  by (auto simp: read_pdf_def open_read_def split: option.splits node.splits file_data.splits)

lemma read_pdf_exists: "read_pdf fs p = Inr ps \<Longrightarrow> path_exists fs p"
  by (simp add: read_pdf_Inr_iff path_exists_def)

lemma write_pdf_ok:
  "open_write fs p = Inr () \<Longrightarrow> write_pdf fs p ps = Inr (fs(p \<mapsto> File (PdfData ps)))"
  by (simp add: write_pdf_def write_file_def)

lemma open_write_nonempty: "open_write fs p = Inr u \<Longrightarrow> p \<noteq> []"
  by (auto simp: open_write_def node_at_def split: option.splits node.splits if_splits)

lemma read_after_write:
  "p \<noteq> [] \<Longrightarrow> read_pdf (fs(p \<mapsto> File (PdfData ps))) p = Inr ps"
  by (simp add: read_pdf_Inr_iff node_at_def)

lemma pages_at_write:
  "p \<noteq> [] \<Longrightarrow> pages_at (fs(p \<mapsto> File (PdfData ps))) p = ps"
  by (simp add: pages_at_def read_after_write)

lemma node_at_upd:
  "p \<noteq> [] \<Longrightarrow> node_at (fs(p \<mapsto> x)) q = (if q = p then Some x else node_at fs q)"
  by (simp add: node_at_def)

lemma write_pdf_Inr: "write_pdf fs p ps = Inr fs' \<Longrightarrow> fs' = fs(p \<mapsto> File (PdfData ps))"
  by (auto simp: write_pdf_def write_file_def split: sum.splits)

lemma read_pdf_upd_other:
  "q \<noteq> p \<Longrightarrow> read_pdf (fs(p \<mapsto> x)) q = read_pdf fs q"
  by (simp add: read_pdf_def open_read_def node_at_def)

lemma read_one_file_fs: "read_pdf one_file_fs [''a.pdf''] = Inr [good_page]"
  by (simp add: one_file_fs_def read_pdf_Inr_iff node_at_def)

lemma write_one_file_fs: "open_write one_file_fs [''out.pdf''] = Inr ()"
  by (simp add: one_file_fs_def open_write_def node_at_def)

section \<open>Ranges and chunks of a list\<close>

lemma range_step_count:
  assumes "0 < k" and "i < (n::nat)"
  shows "(n - i + k - 1) div k = Suc ((n - (i + k) + k - 1) div k)"
proof -
  define a where "a = n - (i + k) + k - 1"
  have step: "(a + k) div k = Suc (a div k)"
    using assms(1) by simp
  show ?thesis
  proof (cases "i + k \<le> n")
    case True
    then have "n - i + k - 1 = a + k"
      using assms by (simp add: a_def)
    with step show ?thesis
      by (simp only: a_def)
  next
    case False
    then have "a = k - 1" and "n - i - 1 < k"
      using assms by (simp_all add: a_def)
    moreover have "n - i + k - 1 = (n - i - 1) + k"
      using assms by simp
    moreover have "((n - i - 1) + k) div k = Suc ((n - i - 1) div k)"
      using assms(1) by simp
    ultimately show ?thesis
      using assms(1) by (simp only: a_def [symmetric]) simp
  qed
qed

lemma range_from_eq:
  "0 < k \<Longrightarrow> range_from i n k = map (\<lambda>j. i + j * k) [0..<(n - i + k - 1) div k]"
proof (induction i n k rule: range_from.induct)
  case (1 i n k)
  show ?case
  proof (cases "n \<le> i")
    case True
    with "1.prems" show ?thesis
      by (simp add: range_from.simps [of i n k])
  next
    case False
    with "1.prems" have ih: "range_from (i + k) n k
        = map (\<lambda>j. i + k + j * k) [0..<(n - (i + k) + k - 1) div k]"
      using "1.IH" by simp
    have cnt: "(n - i + k - 1) div k = Suc ((n - (i + k) + k - 1) div k)"
      using "1.prems" False by (intro range_step_count) simp_all
    have "map (\<lambda>j. i + j * k) [0..<Suc m] = i # map (\<lambda>j. i + k + j * k) [0..<m]" for m
      by (simp add: upt_conv_Cons map_Suc_upt [symmetric] del: upt_Suc)
    with False "1.prems" ih cnt show ?thesis
      by (simp add: range_from.simps [of i n k])
  qed
qed

lemma length_range_from: "0 < k \<Longrightarrow> length (range_from 0 n k) = (n + k - 1) div k"
  by (simp add: range_from_eq)

lemma nth_range_from:
  "0 < k \<Longrightarrow> j < (n + k - 1) div k \<Longrightarrow> range_from 0 n k ! j = j * k"
  by (simp add: range_from_eq)

lemma range_from_lt: "i \<in> set (range_from i0 n k) \<Longrightarrow> i < n"
proof (induction i0 n k rule: range_from.induct)
  case (1 i0 n k)
  then show ?case
    by (cases "k = 0 \<or> n \<le> i0") (auto simp: range_from.simps [of i0 n k])
qed

lemma ceil_div:
  assumes "0 < (k::nat)"
  shows "int ((n + k - 1) div k) = \<lceil>real n / real k\<rceil>"
proof -
  define q where "q = (n + k - 1) div k"
  have "q * k + (n + k - 1) mod k = n + k - 1"
    by (simp add: q_def)
  moreover have "(n + k - 1) mod k < k"
    using assms by simp
  ultimately have lo: "n \<le> q * k" and hi: "q * k < n + k"
    using assms by linarith+
  have "real n / real k \<le> real q"
    using assms lo by (simp add: divide_le_eq) (metis of_nat_le_iff of_nat_mult)
  moreover have "real q - 1 < real n / real k"
  proof -
    from hi have "real (q * k) < real (n + k)" by (simp only: of_nat_less_iff)
    then have "(real q - 1) * real k < real n" by (simp add: algebra_simps)
    with assms show ?thesis by (simp add: less_divide_eq)
  qed
  ultimately have "\<lceil>real n / real k\<rceil> = int q"
    by (intro ceiling_unique) simp_all
  then show ?thesis by (simp add: q_def)
qed

lemma chunk_take_drop:
  assumes "i \<le> length pages"
  shows "map (\<lambda>page_num. pages ! page_num) [i..<min (i + k) (length pages)] = take k (drop i pages)"
proof -
  let ?m = "min (i + k) (length pages)"
  have "[i..<?m] = drop i (take ?m [0..<length pages])"
    by (simp add: take_upt drop_upt)
  then have "map (\<lambda>page_num. pages ! page_num) [i..<?m]
      = drop i (take ?m (map (\<lambda>page_num. pages ! page_num) [0..<length pages]))"
    by (simp only: drop_map take_map)
  also have "\<dots> = drop i (take ?m pages)"
    by (simp only: map_nth)
  also have "\<dots> = take (?m - i) (drop i pages)"
    by (simp add: drop_take)
  also have "\<dots> = take k (drop i pages)"
    using assms by (simp add: min_def)
  finally show ?thesis .
qed

lemma concat_chunks:
  "0 < k \<Longrightarrow>
   concat (map (\<lambda>i. take k (drop i pages)) (range_from i (length pages) k)) = drop i pages"
proof (induction i "length pages" k rule: range_from.induct)
  case (1 i k)
  show ?case
  proof (cases "length pages \<le> i")
    case True
    then show ?thesis
      by (simp add: range_from.simps [of i "length pages" k])
  next
    case False
    with "1.prems" "1.hyps" have "concat (map (\<lambda>i. take k (drop i pages))
        (range_from (i + k) (length pages) k)) = drop (i + k) pages"
      by simp
    moreover have "take k (drop i pages) @ drop (i + k) pages = drop i pages"
      by (metis add.commute append_take_drop_id drop_drop)
    ultimately show ?thesis
      using False "1.prems" by (simp add: range_from.simps [of i "length pages" k])
  qed
qed

section \<open>Creating directories\<close>

lemma mkdir_parents_change:
  "mkdir_parents fs p = Inr fs1 \<Longrightarrow>
   fs1 q = fs q \<or> (fs q = None \<and> fs1 q = Some Dir \<and> length q \<le> length p)"
proof (induction fs p arbitrary: fs1 rule: mkdir_parents.induct)
  case (1 fs p)
  show ?case
  proof (cases "node_at fs p")
    case None
    then have pn: "p \<noteq> []" "fs p = None"
      by (auto simp: node_at_def split: if_splits)
    show ?thesis
    proof (cases "node_at fs (butlast p)")
      case n2: None
      with None "1.prems" obtain fs' where
        rec: "mkdir_parents fs (butlast p) = Inr fs'" and fs1: "fs1 = fs'(p \<mapsto> Dir)"
        by (auto simp: mkdir_parents.simps [of fs p] split: sum.splits)
      from "1.IH" [OF None n2 rec]
      have "fs' q = fs q \<or> (fs q = None \<and> fs' q = Some Dir \<and> length q \<le> length (butlast p))" .
      with fs1 pn show ?thesis by auto
    next
      case (Some x)
      with None "1.prems" pn show ?thesis
        by (cases x) (auto simp: mkdir_parents.simps [of fs p] split: if_splits)
    qed
  next
    case (Some x)
    with "1.prems" show ?thesis
      by (cases x) (auto simp: mkdir_parents.simps [of fs p])
  qed
qed

lemma mkdir_parents_dir:
  assumes "mkdir_parents fs p = Inr fs1"
  shows "node_at fs1 p = Some Dir"
proof (cases "node_at fs p")
  case None
  then have "p \<noteq> []"
    by (auto simp: node_at_def split: if_splits)
  moreover from None assms have "\<exists>g. fs1 = g(p \<mapsto> Dir)"
    by (auto simp: mkdir_parents.simps [of fs p] split: option.splits node.splits sum.splits)
  ultimately show ?thesis
    by (auto simp: node_at_def)
next
  case (Some x)
  with assms show ?thesis
    by (cases x) (auto simp: mkdir_parents.simps [of fs p])
qed

lemma fs_ok_prefix_dir:
  "fs_ok fs \<Longrightarrow> node_at fs p \<noteq> None \<Longrightarrow> m < length p \<Longrightarrow> node_at fs (take m p) = Some Dir"
proof (induction p arbitrary: m rule: rev_induct)
  case Nil
  then show ?case by simp
next
  case (snoc x xs)
  from snoc.prems(2) have "fs (xs @ [x]) \<noteq> None"
    by (simp add: node_at_def)
  with snoc.prems(1) have "node_at fs (butlast (xs @ [x])) = Some Dir"
    unfolding fs_ok_def by blast
  then have par: "node_at fs xs = Some Dir"
    by simp
  show ?case
  proof (cases "m = length xs")
    case True
    with par show ?thesis by simp
  next
    case False
    with snoc.prems(3) have "m < length xs" by simp
    with snoc.IH [OF snoc.prems(1), of m] par show ?thesis by simp
  qed
qed

lemma mkdir_parents_creates:
  assumes "fs_ok fs"
    and "\<forall>m \<le> length p. \<forall>d. node_at fs (take m p) \<noteq> Some (File d)"
  shows "\<exists>fs1. mkdir_parents fs p = Inr fs1
       \<and> (\<forall>m \<le> length p. node_at fs1 (take m p) = Some Dir)"
  using assms(2)
proof (induction p rule: rev_induct)
  case Nil
  then show ?case
    by (simp add: mkdir_parents.simps [of fs "[]"] node_at_def)
next
  case (snoc x xs)
  let ?p = "xs @ [x]"
  have nofile: "\<forall>d. node_at fs ?p \<noteq> Some (File d)"
    using snoc.prems [rule_format, of "length ?p"] by simp
  have nofile_xs: "\<forall>m \<le> length xs. \<forall>d. node_at fs (take m xs) \<noteq> Some (File d)"
  proof (intro allI impI)
    fix m d assume "m \<le> length xs"
    then have "take m ?p = take m xs" and "m \<le> length ?p" by simp_all
    with snoc.prems [rule_format, of m d] show "node_at fs (take m xs) \<noteq> Some (File d)"
      by simp
  qed
  have pre: "take m ?p = take m xs" if "m \<le> length xs" for m
    using that by simp
  show ?case
  proof (cases "node_at fs ?p")
    case (Some n)
    with nofile have d: "node_at fs ?p = Some Dir" by (cases n) auto
    then have "mkdir_parents fs ?p = Inr fs"
      by (simp add: mkdir_parents.simps [of fs ?p])
    moreover have "node_at fs (take m ?p) = Some Dir" if "m \<le> length ?p" for m
    proof (cases "m = length ?p")
      case True
      with d show ?thesis by simp
    next
      case False
      with that have "m < length ?p" by simp
      with assms(1) d show ?thesis by (intro fs_ok_prefix_dir) simp_all
    qed
    ultimately show ?thesis by blast
  next
    case None
    show ?thesis
    proof (cases "node_at fs xs")
      case (Some n)
      with nofile_xs have d: "node_at fs xs = Some Dir"
        by (cases n) (auto dest: spec [of _ "length xs"])
      with None have run: "mkdir_parents fs ?p = Inr (fs(?p \<mapsto> Dir))"
        by (simp add: mkdir_parents.simps [of fs ?p])
      have "node_at (fs(?p \<mapsto> Dir)) (take m ?p) = Some Dir" if "m \<le> length ?p" for m
      proof (cases "m = length ?p")
        case True
        then show ?thesis by (simp add: node_at_def)
      next
        case False
        with that have m: "m \<le> length xs" by simp
        have "node_at fs (take m xs) = Some Dir"
        proof (cases "m = length xs")
          case True
          with d show ?thesis by simp
        next
          case False
          with m have "m < length xs" by simp
          with assms(1) d show ?thesis by (intro fs_ok_prefix_dir) simp_all
        qed
        moreover have "take m xs \<noteq> ?p"
        proof
          assume "take m xs = ?p"
          then have "length (take m xs) = length ?p" by (rule arg_cong)
          then show False by simp
        qed
        ultimately show ?thesis
          using m by (simp add: pre node_at_upd)
      qed
      with run show ?thesis by blast
    next
      case n2: None
      from snoc.IH [OF nofile_xs] obtain fs' where
        rec: "mkdir_parents fs xs = Inr fs'"
        and dirs: "\<forall>m \<le> length xs. node_at fs' (take m xs) = Some Dir"
        by blast
      from None n2 rec have run: "mkdir_parents fs ?p = Inr (fs'(?p \<mapsto> Dir))"
        by (simp add: mkdir_parents.simps [of fs ?p])
      have "node_at (fs'(?p \<mapsto> Dir)) (take m ?p) = Some Dir" if "m \<le> length ?p" for m
      proof (cases "m = length ?p")
        case True
        then show ?thesis by (simp add: node_at_def)
      next
        case False
        with that have m: "m \<le> length xs" by simp
        moreover have "take m xs \<noteq> ?p"
        proof
          assume "take m xs = ?p"
          then have "length (take m xs) = length ?p" by (rule arg_cong)
          then show False by simp
        qed
        ultimately show ?thesis
          using dirs by (simp add: pre node_at_upd)
      qed
      with run show ?thesis by blast
    qed
  qed
qed

section \<open>Merging\<close>

lemma merger_append_ok:
  "merger_append fs p = Inr () \<longleftrightarrow>
     (\<exists>ps. node_at fs p = Some (File (PdfData ps))) \<or> node_at fs p = Some (File DamagedPdf)"
  by (auto simp: merger_append_def open_read_def split: option.splits node.splits file_data.splits)

lemma merger_append_exists: "merger_append fs p = Inr u \<Longrightarrow> path_exists fs p"
  by (auto simp: merger_append_def open_read_def path_exists_def split: option.splits)

lemma merge_loop_stops:
  assumes "\<forall>ps. node_at fs f \<noteq> Some (File (PdfData ps))"
    and "node_at fs f \<noteq> Some (File DamagedPdf)"
  shows "\<exists>r. r \<noteq> Success \<and> merge_loop fs merger (pre @ f # rest) = Inl r
           \<and> merge_loop fs merger (pre @ [f]) = Inl r"
proof (induction pre arbitrary: merger)
  case Nil
  show ?case
  proof (cases "path_exists fs f")
    case False
    then show ?thesis by simp
  next
    case True
    from assms have "merger_append fs f \<noteq> Inr ()"
      by (simp add: merger_append_ok)
    then obtain e where "merger_append fs f = Inl e"
      by (cases "merger_append fs f") auto
    with True show ?thesis by simp
  qed
next
  case (Cons g pre)
  show ?case
  proof (cases "path_exists fs g")
    case False
    then show ?thesis by simp
  next
    case True
    show ?thesis
    proof (cases "merger_append fs g")
      case (Inl e)
      with True show ?thesis by simp
    next
      case (Inr u)
      with True Cons.IH [of "merger @ [g]"] show ?thesis by simp
    qed
  qed
qed

lemma merge_loop_all_pass:
  "\<forall>g \<in> set input_files. merger_append fs g = Inr () \<Longrightarrow>
   merge_loop fs merger input_files = Inr (merger @ input_files)"
proof (induction input_files arbitrary: merger)
  case Nil
  then show ?case by simp
next
  case (Cons g rest)
  then have "merger_append fs g = Inr ()" by simp
  moreover from this have "path_exists fs g" by (rule merger_append_exists)
  ultimately show ?case
    using Cons.IH [of "merger @ [g]"] Cons.prems by simp
qed

lemma merger_pages_all_good:
  "\<forall>g \<in> set sources. read_pdf fs g = Inr (pages_at fs g) \<Longrightarrow>
   merger_pages fs sources = Inr (concat (map (pages_at fs) sources))"
  by (induction sources) simp_all

lemma merger_pages_fails:
  assumes "\<forall>g \<in> set sources. read_pdf fs g = Inl PdfReadError \<or> (\<exists>ps. read_pdf fs g = Inr ps)"
    and "\<exists>g \<in> set sources. read_pdf fs g = Inl PdfReadError"
  shows "merger_pages fs sources = Inl PdfReadError"
  using assms
proof (induction sources)
  case Nil
  then show ?case by simp
next
  case (Cons g rest)
  show ?case
  proof (cases "read_pdf fs g")
    case (Inl e)
    with Cons.prems(1) show ?thesis by simp
  next
    case (Inr ps)
    with Cons.prems have "\<exists>h \<in> set rest. read_pdf fs h = Inl PdfReadError"
      by auto
    with Cons.IH Cons.prems(1) have "merger_pages fs rest = Inl PdfReadError"
      by simp
    with Inr show ?thesis by simp
  qed
qed

lemma read_pdf_file_cases:
  "node_at fs g = Some (File d) \<Longrightarrow>
   read_pdf fs g = Inl PdfReadError \<or> (\<exists>ps. read_pdf fs g = Inr ps)"
  by (cases d) (simp_all add: read_pdf_def open_read_def)

lemma merge_pdfs_success:
  assumes "\<forall>g \<in> set input_files. \<exists>ps. read_pdf fs g = Inr ps"
    and "output_file \<notin> set input_files"
    and "open_write fs output_file = Inr ()"
  shows "merge_pdfs fs input_files output_file =
         (Success, fs(output_file \<mapsto> File (PdfData (concat (map (pages_at fs) input_files)))))"
proof -
  let ?fs1 = "fs(output_file \<mapsto> File (TextData []))"
  have pass: "\<forall>g \<in> set input_files. merger_append fs g = Inr ()"
    using assms(1) by (auto simp: merger_append_ok read_pdf_Inr_iff)
  have same: "read_pdf ?fs1 g = read_pdf fs g" if "g \<in> set input_files" for g
    using that assms(2) by (intro read_pdf_upd_other) auto
  then have pa: "pages_at ?fs1 g = pages_at fs g" if "g \<in> set input_files" for g
    using that by (simp add: pages_at_def)
  have "\<forall>g \<in> set input_files. read_pdf ?fs1 g = Inr (pages_at ?fs1 g)"
    using assms(1) same by (auto simp: pages_at_def)
  then have "merger_pages ?fs1 input_files = Inr (concat (map (pages_at ?fs1) input_files))"
    by (rule merger_pages_all_good)
  moreover have "map (pages_at ?fs1) input_files = map (pages_at fs) input_files"
    using pa by simp
  ultimately have mp: "merger_pages ?fs1 input_files
      = Inr (concat (map (pages_at fs) input_files))"
    by (simp only:)
  show ?thesis
    unfolding merge_pdfs_def Let_def
    by (simp add: merge_loop_all_pass [OF pass] assms(3) mp)
qed

lemma merge_pdfs_write_failure:
  assumes "\<forall>g \<in> set input_files.
      (\<exists>ps. node_at fs g = Some (File (PdfData ps))) \<or> node_at fs g = Some (File DamagedPdf)"
    and "\<exists>g \<in> set input_files. node_at fs g = Some (File DamagedPdf)"
    and "open_write fs output_file = Inr ()"
  shows "merge_pdfs fs input_files output_file =
         (Failure PdfReadError, fs(output_file \<mapsto> File (TextData [])))"
proof -
  let ?fs1 = "fs(output_file \<mapsto> File (TextData []))"
  have out: "output_file \<noteq> []"
    using assms(3) by (rule open_write_nonempty)
  have pass: "\<forall>g \<in> set input_files. merger_append fs g = Inr ()"
    using assms(1) by (simp add: merger_append_ok)
  have files: "\<exists>d. node_at ?fs1 g = Some (File d)" if "g \<in> set input_files" for g
    using that assms(1) out by (auto simp: node_at_upd)
  have 1: "\<forall>g \<in> set input_files.
      read_pdf ?fs1 g = Inl PdfReadError \<or> (\<exists>ps. read_pdf ?fs1 g = Inr ps)"
    using files read_pdf_file_cases by blast
  from assms(2) obtain g where g: "g \<in> set input_files"
    and dam: "node_at fs g = Some (File DamagedPdf)"
    by blast
  have "node_at ?fs1 g = Some (File DamagedPdf) \<or> node_at ?fs1 g = Some (File (TextData []))"
    using dam out by (auto simp: node_at_upd)
  then have "read_pdf ?fs1 g = Inl PdfReadError"
    by (auto simp: read_pdf_def open_read_def)
  with g have 2: "\<exists>g \<in> set input_files. read_pdf ?fs1 g = Inl PdfReadError"
    by blast
  note mp = merger_pages_fails [OF 1 2]
  show ?thesis
    unfolding merge_pdfs_def Let_def
    by (simp add: merge_loop_all_pass [OF pass] assms(3) mp)
qed

text \<open>
  Claim C4, as the code has it. A source that is missing, or that \<^verbatim>\<open>merger.append\<close> does
  not accept (a directory, a file that is not a PDF), stops \<^verbatim>\<open>merge_pdfs\<close> at that source:
  the call returns \<^verbatim>\<open>False\<close>, the file system is as it was, and the inputs after that
  source have no influence. When every source is accepted and one of them is damaged, so
  that it fails only while the merged document is written, the call returns \<^verbatim>\<open>False\<close> as
  well, but the output file has been opened by then and is left behind, empty; nothing
  else is changed.
\<close>

theorem merge_pdfs_failure_modes:
  "((\<forall>ps. node_at fs f \<noteq> Some (File (PdfData ps))) \<and> node_at fs f \<noteq> Some (File DamagedPdf) \<longrightarrow>
       \<not> returned (fst (merge_pdfs fs (pre @ f # rest) output_file))
     \<and> snd (merge_pdfs fs (pre @ f # rest) output_file) = fs
     \<and> merge_pdfs fs (pre @ f # rest) output_file = merge_pdfs fs (pre @ [f]) output_file)
   \<and> ((\<forall>g \<in> set input_files.
          (\<exists>ps. node_at fs g = Some (File (PdfData ps))) \<or> node_at fs g = Some (File DamagedPdf))
       \<and> (\<exists>g \<in> set input_files. node_at fs g = Some (File DamagedPdf))
       \<and> open_write fs output_file = Inr () \<longrightarrow>
       merge_pdfs fs input_files output_file
         = (Failure PdfReadError, fs(output_file \<mapsto> File (TextData []))))"
proof (intro conjI impI)
  assume a: "(\<forall>ps. node_at fs f \<noteq> Some (File (PdfData ps))) \<and> node_at fs f \<noteq> Some (File DamagedPdf)"
  from merge_loop_stops [of fs f "[]" pre rest] a
  obtain r where r: "r \<noteq> Success" "merge_loop fs [] (pre @ f # rest) = Inl r"
    "merge_loop fs [] (pre @ [f]) = Inl r"
    by blast
  from r show "\<not> returned (fst (merge_pdfs fs (pre @ f # rest) output_file))"
    by (simp add: merge_pdfs_def returned_def)
  from r show "snd (merge_pdfs fs (pre @ f # rest) output_file) = fs"
    by (simp add: merge_pdfs_def)
  from r show "merge_pdfs fs (pre @ f # rest) output_file = merge_pdfs fs (pre @ [f]) output_file"
    by (simp add: merge_pdfs_def)
next
  assume "(\<forall>g \<in> set input_files.
          (\<exists>ps. node_at fs g = Some (File (PdfData ps))) \<or> node_at fs g = Some (File DamagedPdf))
       \<and> (\<exists>g \<in> set input_files. node_at fs g = Some (File DamagedPdf))
       \<and> open_write fs output_file = Inr ()"
  then show "merge_pdfs fs input_files output_file
         = (Failure PdfReadError, fs(output_file \<mapsto> File (TextData [])))"
    by (intro merge_pdfs_write_failure) blast+
qed

lemma open_write_damaged_source_fs: "open_write damaged_source_fs [''merged.pdf''] = Inr ()"
  by (simp add: damaged_source_fs_def open_write_def node_at_def)

theorem merge_pdfs_failure_modes_witness:
  "node_at one_file_fs [''missing.pdf''] = None
   \<and> returned (fst (merge_pdfs one_file_fs
         [[''a.pdf''], [''missing.pdf''], [''a.pdf'']] [''merged.pdf''])) = False
   \<and> snd (merge_pdfs one_file_fs
         [[''a.pdf''], [''missing.pdf''], [''a.pdf'']] [''merged.pdf'']) = one_file_fs
   \<and> node_at damaged_source_fs [''damaged.pdf''] = Some (File DamagedPdf)
   \<and> open_write damaged_source_fs [''merged.pdf''] = Inr ()
   \<and> merge_pdfs damaged_source_fs [[''a.pdf''], [''damaged.pdf'']] [''merged.pdf'']
       = (Failure PdfReadError, damaged_source_fs([''merged.pdf''] \<mapsto> File (TextData [])))"
proof -
  have none: "node_at one_file_fs [''missing.pdf''] = None"
    by (simp add: one_file_fs_def node_at_def)
  then have h: "(\<forall>ps. node_at one_file_fs [''missing.pdf''] \<noteq> Some (File (PdfData ps)))
      \<and> node_at one_file_fs [''missing.pdf''] \<noteq> Some (File DamagedPdf)"
    by simp
  from merge_pdfs_failure_modes [where fs = one_file_fs and f = "[''missing.pdf'']"
      and pre = "[[''a.pdf'']]" and rest = "[[''a.pdf'']]" and output_file = "[''merged.pdf'']",
      THEN conjunct1, rule_format, OF h]
  have 1: "returned (fst (merge_pdfs one_file_fs
         [[''a.pdf''], [''missing.pdf''], [''a.pdf'']] [''merged.pdf''])) = False"
    and 2: "snd (merge_pdfs one_file_fs
         [[''a.pdf''], [''missing.pdf''], [''a.pdf'']] [''merged.pdf'']) = one_file_fs"
    unfolding append.simps by blast+
  have dam: "node_at damaged_source_fs [''damaged.pdf''] = Some (File DamagedPdf)"
    by (simp add: damaged_source_fs_def node_at_def)
  have all: "\<forall>g \<in> set [[''a.pdf''], [''damaged.pdf'']].
      (\<exists>ps. node_at damaged_source_fs g = Some (File (PdfData ps)))
      \<or> node_at damaged_source_fs g = Some (File DamagedPdf)"
    by (simp add: damaged_source_fs_def node_at_def)
  have ex: "\<exists>g \<in> set [[''a.pdf''], [''damaged.pdf'']].
      node_at damaged_source_fs g = Some (File DamagedPdf)"
    using dam by simp
  from merge_pdfs_failure_modes [where fs = damaged_source_fs
      and input_files = "[[''a.pdf''], [''damaged.pdf'']]" and output_file = "[''merged.pdf'']",
      THEN conjunct2, rule_format, OF conjI [OF all conjI [OF ex open_write_damaged_source_fs]]]
  have 3: "merge_pdfs damaged_source_fs [[''a.pdf''], [''damaged.pdf'']] [''merged.pdf'']
       = (Failure PdfReadError, damaged_source_fs([''merged.pdf''] \<mapsto> File (TextData [])))" .
  from none 1 2 dam open_write_damaged_source_fs 3 show ?thesis
    by blast
qed

text \<open>
  Claim C4 as stated fails. Of the two sources, \<^verbatim>\<open>damaged.pdf\<close> does not load: reading
  it raises. Both sources pass \<^verbatim>\<open>merger.append\<close>, the output is opened, and the write
  raises: the call fails, and \<^verbatim>\<open>merged.pdf\<close>, which was not there before, now exists.
\<close>

theorem merge_pdfs_leaves_output_on_write_failure:
  "read_pdf damaged_source_fs [''damaged.pdf''] = Inl PdfReadError
   \<and> fst (merge_pdfs damaged_source_fs [[''a.pdf''], [''damaged.pdf'']] [''merged.pdf''])
       = Failure PdfReadError
   \<and> path_exists damaged_source_fs [''merged.pdf''] = False
   \<and> path_exists (snd (merge_pdfs damaged_source_fs [[''a.pdf''], [''damaged.pdf'']]
         [''merged.pdf''])) [''merged.pdf''] = True"
proof -
  have all: "\<forall>g \<in> set [[''a.pdf''], [''damaged.pdf'']].
      (\<exists>ps. node_at damaged_source_fs g = Some (File (PdfData ps)))
      \<or> node_at damaged_source_fs g = Some (File DamagedPdf)"
    by (simp add: damaged_source_fs_def node_at_def)
  have ex: "\<exists>g \<in> set [[''a.pdf''], [''damaged.pdf'']].
      node_at damaged_source_fs g = Some (File DamagedPdf)"
    by (simp add: damaged_source_fs_def node_at_def)
  have run: "merge_pdfs damaged_source_fs [[''a.pdf''], [''damaged.pdf'']] [''merged.pdf'']
       = (Failure PdfReadError, damaged_source_fs([''merged.pdf''] \<mapsto> File (TextData [])))"
    by (rule merge_pdfs_write_failure [OF all ex open_write_damaged_source_fs])
  have "read_pdf damaged_source_fs [''damaged.pdf''] = Inl PdfReadError"
    by (simp add: damaged_source_fs_def read_pdf_def open_read_def node_at_def)
  moreover have "path_exists damaged_source_fs [''merged.pdf''] = False"
    by (simp add: damaged_source_fs_def path_exists_def node_at_def)
  ultimately show ?thesis
    by (simp add: run path_exists_def node_at_def)
qed

section \<open>Rotation\<close>

lemma rotate_pages_ok:
  "angle mod 90 = 0 \<Longrightarrow>
   rotate_pages angle ps = Inr (map (\<lambda>p. p\<lparr>rotation := rotation p + angle\<rparr>) ps)"
  by (induction ps) (simp_all add: page_rotate_def)

lemma rotate_pdf_accepts:
  assumes "read_pdf fs input_file = Inr pages"
    and "angle mod 90 = 0"
    and "open_write fs output_file = Inr ()"
  shows "rotate_pdf fs input_file angle output_file =
         (Success, fs(output_file \<mapsto>
            File (PdfData (map (\<lambda>p. p\<lparr>rotation := rotation p + angle\<rparr>) pages))))"
  using assms
  by (simp add: rotate_pdf_def read_pdf_exists rotate_pages_ok write_pdf_ok)

lemma rotate_pdf_rejects:
  "path_exists fs input_file \<Longrightarrow> angle mod 90 \<noteq> 0 \<Longrightarrow>
   rotate_pdf fs input_file angle output_file = (InvalidAngle, fs)"
  by (simp add: rotate_pdf_def)

lemma rotate_pdf_InvalidAngle_iff:
  assumes "path_exists fs input_file"
  shows "fst (rotate_pdf fs input_file angle output_file) = InvalidAngle \<longleftrightarrow> angle mod 90 \<noteq> 0"
  using assms
  by (auto simp: rotate_pdf_def split: sum.splits)

lemma multiple_of_90_mod_360:
  assumes "(angle::int) mod 90 = 0"
  shows "angle mod 360 \<in> {0, 90, 180, 270}"
proof -
  from assms obtain q where q: "angle = 90 * q"
    by (auto simp: mod_eq_0_iff_dvd)
  have "angle mod 360 = 90 * (q mod 4)"
    using mult_mod_right [of 90 q 4] by (simp add: q)
  moreover have "q mod 4 = 0 \<or> q mod 4 = 1 \<or> q mod 4 = 2 \<or> q mod 4 = 3"
    by presburger
  ultimately show ?thesis by auto
qed

text \<open>
  Claim C3, as the code has it. For a loadable input and a writable output,
  \<^verbatim>\<open>rotate_pdf\<close> fails with the angle error exactly when the angle is not a multiple of 90,
  and then changes nothing. A multiple of 90 is accepted and handed to \<^verbatim>\<open>page.rotate\<close> as
  it is: every page's \<^verbatim>\<open>/Rotate\<close> becomes the old value plus the angle, which is not
  reduced modulo 360; the angle modulo 360 lies in \<open>{0, 90, 180, 270}\<close> and the stored
  value is congruent modulo 360 to the old value plus that residue.
\<close>

theorem rotate_pdf_angle_policy:
  assumes "read_pdf fs input_file = Inr pages"
    and "open_write fs output_file = Inr ()"
  shows "(fst (rotate_pdf fs input_file angle output_file) = InvalidAngle \<longleftrightarrow> angle mod 90 \<noteq> 0)
       \<and> (angle mod 90 \<noteq> 0 \<longrightarrow> rotate_pdf fs input_file angle output_file = (InvalidAngle, fs))
       \<and> (angle mod 90 = 0 \<longrightarrow>
            fst (rotate_pdf fs input_file angle output_file) = Success
          \<and> pages_at (snd (rotate_pdf fs input_file angle output_file)) output_file
              = map (\<lambda>p. p\<lparr>rotation := rotation p + angle\<rparr>) pages
          \<and> angle mod 360 \<in> {0, 90, 180, 270}
          \<and> (\<forall>r. (r + angle) mod 360 = (r + angle mod 360) mod 360))"
proof (intro conjI impI)
  show "fst (rotate_pdf fs input_file angle output_file) = InvalidAngle \<longleftrightarrow> angle mod 90 \<noteq> 0"
    using assms(1) by (rule rotate_pdf_InvalidAngle_iff [OF read_pdf_exists])
next
  assume "angle mod 90 \<noteq> 0"
  then show "rotate_pdf fs input_file angle output_file = (InvalidAngle, fs)"
    using assms(1) by (simp add: rotate_pdf_rejects read_pdf_exists)
next
  assume a: "angle mod 90 = 0"
  note r = rotate_pdf_accepts [OF assms(1) a assms(2)]
  show "fst (rotate_pdf fs input_file angle output_file) = Success"
    by (simp add: r)
  show "pages_at (snd (rotate_pdf fs input_file angle output_file)) output_file
          = map (\<lambda>p. p\<lparr>rotation := rotation p + angle\<rparr>) pages"
    using open_write_nonempty [OF assms(2)] by (simp add: r pages_at_write)
  show "angle mod 360 \<in> {0, 90, 180, 270}"
    using a by (rule multiple_of_90_mod_360)
  show "\<forall>r. (r + angle) mod 360 = (r + angle mod 360) mod 360"
    by (simp add: mod_add_right_eq)
qed

theorem rotate_pdf_angle_policy_witness:
  "read_pdf one_file_fs [''a.pdf''] = Inr [good_page]
   \<and> open_write one_file_fs [''out.pdf''] = Inr ()
   \<and> fst (rotate_pdf one_file_fs [''a.pdf''] 450 [''out.pdf'']) = Success
   \<and> pages_at (snd (rotate_pdf one_file_fs [''a.pdf''] 450 [''out.pdf''])) [''out.pdf'']
       = [good_page\<lparr>rotation := rotation good_page + 450\<rparr>]
   \<and> rotate_pdf one_file_fs [''a.pdf''] 91 [''out.pdf''] = (InvalidAngle, one_file_fs)"
proof -
  have a: "(450::int) mod 90 = 0" and b: "(91::int) mod 90 \<noteq> 0"
    by simp_all
  from rotate_pdf_angle_policy [OF read_one_file_fs write_one_file_fs, of 450] a
  have "fst (rotate_pdf one_file_fs [''a.pdf''] 450 [''out.pdf'']) = Success"
    and "pages_at (snd (rotate_pdf one_file_fs [''a.pdf''] 450 [''out.pdf''])) [''out.pdf'']
       = map (\<lambda>p. p\<lparr>rotation := rotation p + 450\<rparr>) [good_page]"
    by blast+
  moreover from rotate_pdf_angle_policy [OF read_one_file_fs write_one_file_fs, of 91] b
  have "rotate_pdf one_file_fs [''a.pdf''] 91 [''out.pdf''] = (InvalidAngle, one_file_fs)"
    by blast
  ultimately show ?thesis
    using read_one_file_fs write_one_file_fs by simp
qed

text \<open>
  Claim C3 as stated fails: rotating a page whose \<^verbatim>\<open>/Rotate\<close> is 0 by 450 succeeds and
  stores 450, which is not one of 0, 90, 180, 270 and is not what rotating by 90 stores.
\<close>

theorem rotate_450_is_not_normalized:
  "fst (rotate_pdf one_file_fs [''a.pdf''] 450 [''out.pdf'']) = Success
   \<and> map rotation (pages_at (snd (rotate_pdf one_file_fs [''a.pdf''] 450 [''out.pdf''])) [''out.pdf'']) = [450]
   \<and> map rotation (pages_at (snd (rotate_pdf one_file_fs [''a.pdf''] 90 [''out.pdf''])) [''out.pdf'']) = [90]
   \<and> (450::int) \<notin> {0, 90, 180, 270}"
proof -
  have "rotate_pdf one_file_fs [''a.pdf''] 450 [''out.pdf'']
      = (Success, one_file_fs([''out.pdf''] \<mapsto>
           File (PdfData (map (\<lambda>p. p\<lparr>rotation := rotation p + 450\<rparr>) [good_page]))))"
    by (rule rotate_pdf_accepts [OF read_one_file_fs _ write_one_file_fs]) simp
  moreover have "rotate_pdf one_file_fs [''a.pdf''] 90 [''out.pdf'']
      = (Success, one_file_fs([''out.pdf''] \<mapsto>
           File (PdfData (map (\<lambda>p. p\<lparr>rotation := rotation p + 90\<rparr>) [good_page]))))"
    by (rule rotate_pdf_accepts [OF read_one_file_fs _ write_one_file_fs]) simp
  ultimately show ?thesis
    by (simp add: pages_at_write good_page_def)
qed

text \<open>
  Claim C8. For an accepted angle, the document written by \<^verbatim>\<open>rotate_pdf\<close> has as many
  pages as the input, and its page \<open>i\<close> is page \<open>i\<close> of the input with only the
  \<^verbatim>\<open>/Rotate\<close> entry changed: content stream and \<^verbatim>\<open>/MediaBox\<close> are the same.
\<close>

theorem rotate_pdf_frame:
  assumes "read_pdf fs input_file = Inr pages"
    and "angle mod 90 = 0"
    and "open_write fs output_file = Inr ()"
  shows "fst (rotate_pdf fs input_file angle output_file) = Success
       \<and> length (pages_at (snd (rotate_pdf fs input_file angle output_file)) output_file) = length pages
       \<and> (\<forall>i < length pages.
            pages_at (snd (rotate_pdf fs input_file angle output_file)) output_file ! i
              = (pages ! i)\<lparr>rotation := rotation (pages ! i) + angle\<rparr>
          \<and> contents (pages_at (snd (rotate_pdf fs input_file angle output_file)) output_file ! i)
              = contents (pages ! i)
          \<and> mediabox (pages_at (snd (rotate_pdf fs input_file angle output_file)) output_file ! i)
              = mediabox (pages ! i))"
  using open_write_nonempty [OF assms(3)]
  by (simp add: rotate_pdf_accepts [OF assms] pages_at_write)

theorem rotate_pdf_frame_witness:
  "read_pdf one_file_fs [''a.pdf''] = Inr [good_page]
   \<and> (180::int) mod 90 = 0
   \<and> open_write one_file_fs [''out.pdf''] = Inr ()
   \<and> pages_at (snd (rotate_pdf one_file_fs [''a.pdf''] 180 [''out.pdf''])) [''out.pdf'']
       = [good_page\<lparr>rotation := 180\<rparr>]"
proof -
  have a: "(180::int) mod 90 = 0" by simp
  from rotate_pdf_frame [OF read_one_file_fs a write_one_file_fs]
  have "length (pages_at (snd (rotate_pdf one_file_fs [''a.pdf''] 180 [''out.pdf''])) [''out.pdf'']) = 1"
    and "pages_at (snd (rotate_pdf one_file_fs [''a.pdf''] 180 [''out.pdf''])) [''out.pdf''] ! 0
       = good_page\<lparr>rotation := rotation good_page + 180\<rparr>"
    by simp_all
  then have "pages_at (snd (rotate_pdf one_file_fs [''a.pdf''] 180 [''out.pdf''])) [''out.pdf'']
       = [good_page\<lparr>rotation := 180\<rparr>]"
    by (cases "pages_at (snd (rotate_pdf one_file_fs [''a.pdf''] 180 [''out.pdf''])) [''out.pdf'']")
       (simp_all add: good_page_def)
  with read_one_file_fs write_one_file_fs a show ?thesis by blast
qed

section \<open>Text extraction\<close>

lemma text_content_nth:
  "i < length pages \<Longrightarrow>
   text_content page_text pages ! i = text_entry (i + 1) (page_text (pages ! i))"
  by (simp add: text_content_def nth_enumerate_eq)

lemma length_text_content: "length (text_content page_text pages) = length pages"
  by (simp add: text_content_def)

lemma text_content_explicit:
  "text_content page_text pages =
   map (\<lambda>i. ''=== Page '' @ str_nat (i + 1) @ '' ==='' @ [CHR 0x0A]
              @ page_text (pages ! i) @ [CHR 0x0A])
     [0..<length pages]"
  by (rule nth_equalityI) (simp_all add: length_text_content text_content_nth text_entry_def)

lemma join_nl_explicit: "join_nl xs = butlast (concat (map (\<lambda>x. x @ [CHR 0x0A]) xs))"
proof (induction xs rule: join_nl.induct)
  case 1
  show ?case by simp
next
  case (2 x)
  show ?case by simp
next
  case (3 x y ys)
  have "concat (map (\<lambda>x. x @ [CHR 0x0A]) (y # ys)) \<noteq> []"
    by simp
  then have "butlast (concat (map (\<lambda>x. x @ [CHR 0x0A]) (x # y # ys)))
      = x @ [CHR 0x0A] @ butlast (concat (map (\<lambda>x. x @ [CHR 0x0A]) (y # ys)))"
    by (simp add: butlast_append del: concat.simps list.map)
      (simp add: butlast_append)
  with "3.IH" show ?case by simp
qed

lemma page_header_inj:
  "''=== Page '' @ str_nat (i + 1) @ '' ==='' = ''=== Page '' @ str_nat (j + 1) @ '' ===''
   \<Longrightarrow> i = j"
proof -
  assume "''=== Page '' @ str_nat (i + 1) @ '' ==='' = ''=== Page '' @ str_nat (j + 1) @ '' ===''"
  then have "str_nat (i + 1) @ CHR '' '' # ''==='' = str_nat (j + 1) @ CHR '' '' # ''===''"
    by simp
  then have "str_nat (i + 1) = str_nat (j + 1)"
    by (rule append_sep_unique) (simp_all add: str_nat_no_space)
  then show ?thesis using str_nat_inj by fastforce
qed

text \<open>
  Claim C9. For a document of \<open>n\<close> pages \<^verbatim>\<open>extract_text\<close> succeeds and produces exactly \<open>n\<close>
  entries, in page order: the entry at position \<open>i\<close> (from 0) is the header
  \<open>=== Page i+1 ===\<close>, a newline, the text extracted from page \<open>i\<close>, and a newline. Headers
  of different pages differ. What is printed, or written to the output file, is all the
  entries in that order with one newline between consecutive entries.
\<close>

theorem extract_text_entries:
  assumes "read_pdf fs input_file = Inr pages"
    and "entries = map (\<lambda>i. ''=== Page '' @ str_nat (i + 1) @ '' ==='' @ [CHR 0x0A]
                             @ page_text (pages ! i) @ [CHR 0x0A])
                     [0..<length pages]"
    and "full_text = butlast (concat (map (\<lambda>e. e @ [CHR 0x0A]) entries))"
  shows "length entries = length pages
       \<and> text_content page_text pages = entries
       \<and> extract_text page_text fs input_file None = (Success, fs, [full_text])
       \<and> (\<forall>f. open_write fs f = Inr () \<longrightarrow>
            extract_text page_text fs input_file (Some f)
              = (Success, fs(f \<mapsto> File (TextData full_text)), []))
       \<and> (\<forall>i j. i \<noteq> j \<longrightarrow>
            ''=== Page '' @ str_nat (i + 1) @ '' ==='' \<noteq> ''=== Page '' @ str_nat (j + 1) @ '' ==='')"
proof (intro conjI allI impI)
  show "length entries = length pages"
    by (simp add: assms(2))
  show tc: "text_content page_text pages = entries"
    by (simp only: assms(2) text_content_explicit)
  have ft: "join_nl (text_content page_text pages) = full_text"
    by (simp only: assms(3) tc join_nl_explicit)
  show "extract_text page_text fs input_file None = (Success, fs, [full_text])"
    using assms(1) by (simp add: extract_text_def read_pdf_exists ft)
  show "extract_text page_text fs input_file (Some f)
      = (Success, fs(f \<mapsto> File (TextData full_text)), [])" if "open_write fs f = Inr ()" for f
    using assms(1) that by (simp add: extract_text_def read_pdf_exists ft write_file_def)
  show "''=== Page '' @ str_nat (i + 1) @ '' ==='' \<noteq> ''=== Page '' @ str_nat (j + 1) @ '' ===''"
    if "i \<noteq> j" for i j
    using that page_header_inj [of i j] by blast
qed

lemma read_two_page_fs: "read_pdf two_page_fs [''doc.pdf''] = Inr two_pages"
  by (simp add: two_page_fs_def read_pdf_Inr_iff node_at_def)

lemma two_page_text:
  "butlast (concat (map (\<lambda>e. e @ [CHR 0x0A])
     (map (\<lambda>i. ''=== Page '' @ str_nat (i + 1) @ '' ==='' @ [CHR 0x0A]
                @ drawn_text (two_pages ! i) @ [CHR 0x0A])
        [0..<length two_pages])))
   = ''=== Page 1 ==='' @ [CHR 0x0A] @ ''one'' @ [CHR 0x0A, CHR 0x0A]
     @ ''=== Page 2 ==='' @ [CHR 0x0A] @ ''two'' @ [CHR 0x0A]"
  by code_simp

theorem extract_text_entries_witness:
  "read_pdf two_page_fs [''doc.pdf''] = Inr two_pages
   \<and> extract_text drawn_text two_page_fs [''doc.pdf''] None
       = (Success, two_page_fs,
          [''=== Page 1 ==='' @ [CHR 0x0A] @ ''one'' @ [CHR 0x0A, CHR 0x0A]
           @ ''=== Page 2 ==='' @ [CHR 0x0A] @ ''two'' @ [CHR 0x0A]])
   \<and> open_write two_page_fs [''text.txt''] = Inr ()
   \<and> extract_text drawn_text two_page_fs [''doc.pdf''] (Some [''text.txt''])
       = (Success,
          two_page_fs([''text.txt''] \<mapsto> File (TextData
            (''=== Page 1 ==='' @ [CHR 0x0A] @ ''one'' @ [CHR 0x0A, CHR 0x0A]
             @ ''=== Page 2 ==='' @ [CHR 0x0A] @ ''two'' @ [CHR 0x0A]))),
          [])"
proof -
  note t = extract_text_entries [OF read_two_page_fs refl refl, of drawn_text]
  have ow: "open_write two_page_fs [''text.txt''] = Inr ()"
    by (simp add: two_page_fs_def open_write_def node_at_def)
  from t have 1: "extract_text drawn_text two_page_fs [''doc.pdf''] None
      = (Success, two_page_fs,
         [butlast (concat (map (\<lambda>e. e @ [CHR 0x0A])
            (map (\<lambda>i. ''=== Page '' @ str_nat (i + 1) @ '' ==='' @ [CHR 0x0A]
                       @ drawn_text (two_pages ! i) @ [CHR 0x0A])
               [0..<length two_pages])))])"
    by blast
  from t ow have 2: "extract_text drawn_text two_page_fs [''doc.pdf''] (Some [''text.txt''])
      = (Success,
         two_page_fs([''text.txt''] \<mapsto> File (TextData
           (butlast (concat (map (\<lambda>e. e @ [CHR 0x0A])
              (map (\<lambda>i. ''=== Page '' @ str_nat (i + 1) @ '' ==='' @ [CHR 0x0A]
                         @ drawn_text (two_pages ! i) @ [CHR 0x0A])
                 [0..<length two_pages])))))),
         [])"
    by blast
  from 1 2 read_two_page_fs ow show ?thesis
    by (simp only: two_page_text)
qed

section \<open>Watermarking\<close>

lemma save_watermark_canvas:
  assumes "node_at fs watermark_file \<noteq> Some Dir"
  shows "save fs (watermark_canvas t)
         = Inr (fs(watermark_file \<mapsto> File (PdfData [canvas_page letter (overlay_ops t)])))"
proof -
  have "open_write fs watermark_file = Inr ()"
    using assms
    by (auto simp: open_write_def watermark_file_def node_at_def split: option.splits node.splits)
  then show ?thesis
    by (simp add: save_def watermark_canvas_def Canvas_def setFont_def setFillAlpha_def
        rotate_def drawString_def emit_def showPage_def write_pdf_ok overlay_ops_def)
qed

lemma open_write_upd_file:
  assumes "open_write fs q = Inr ()" and "node_at fs p \<noteq> Some Dir"
  shows "open_write (fs(p \<mapsto> File d)) q = Inr ()"
  using assms
  by (auto simp: open_write_def node_at_def split: option.splits node.splits if_splits)

lemma add_watermark_result:
  assumes "read_pdf fs input_file = Inr pages"
    and "input_file \<noteq> watermark_file"
    and "output_file \<noteq> watermark_file"
    and "node_at fs watermark_file \<noteq> Some Dir"
    and "open_write fs output_file = Inr ()"
  shows "add_watermark fs input_file t output_file =
    (Success,
     (fs(watermark_file \<mapsto> File (PdfData [canvas_page letter (overlay_ops t)]),
         output_file \<mapsto> File (PdfData (map (\<lambda>page. merge_page page (canvas_page letter (overlay_ops t))) pages))))
       (watermark_file := None))"
proof -
  let ?wp = "canvas_page letter (overlay_ops t)"
  let ?fs1 = "fs(watermark_file \<mapsto> File (PdfData [?wp]))"
  have wm: "watermark_file \<noteq> []" by (simp add: watermark_file_def)
  have 1: "save fs (watermark_canvas t) = Inr ?fs1"
    by (rule save_watermark_canvas [OF assms(4)])
  have 2: "read_pdf ?fs1 input_file = Inr pages"
    using assms(1,2) by (simp add: read_pdf_upd_other)
  have 3: "read_pdf ?fs1 watermark_file = Inr [?wp]"
    using wm by (rule read_after_write)
  have 4: "open_write ?fs1 output_file = Inr ()"
    by (rule open_write_upd_file [OF assms(5,4)])
  have 5: "os_remove (?fs1(output_file \<mapsto> File (PdfData ps))) watermark_file
      = Inr ((?fs1(output_file \<mapsto> File (PdfData ps)))(watermark_file := None))" for ps
    using assms(3) wm by (simp add: os_remove_def node_at_def)
  show ?thesis
    using assms(1)
    by (simp add: add_watermark_def read_pdf_exists 1 2 3 write_pdf_ok [OF 4] 5)
qed

text \<open>
  Claim C7. When the input loads, the output can be written, and neither is the temporary
  overlay file, \<^verbatim>\<open>add_watermark\<close> succeeds and writes a document with as many pages as the
  input, in the same order: page \<open>i\<close> of the output is page \<open>i\<close> of the input with the
  overlay's operators appended to its content stream, so the stream is at least as long
  as before, and \<^verbatim>\<open>/MediaBox\<close> and \<^verbatim>\<open>/Rotate\<close> are unchanged.
\<close>

theorem add_watermark_preserves_pages:
  assumes "read_pdf fs input_file = Inr pages"
    and "input_file \<noteq> watermark_file"
    and "output_file \<noteq> watermark_file"
    and "node_at fs watermark_file \<noteq> Some Dir"
    and "open_write fs output_file = Inr ()"
  shows "fst (add_watermark fs input_file t output_file) = Success
       \<and> length (pages_at (snd (add_watermark fs input_file t output_file)) output_file)
           = length pages
       \<and> (\<forall>i < length pages.
            contents (pages_at (snd (add_watermark fs input_file t output_file)) output_file ! i)
               = contents (pages ! i) @ overlay_ops t
          \<and> mediabox (pages_at (snd (add_watermark fs input_file t output_file)) output_file ! i)
               = mediabox (pages ! i)
          \<and> rotation (pages_at (snd (add_watermark fs input_file t output_file)) output_file ! i)
               = rotation (pages ! i)
          \<and> length (contents (pages ! i))
               \<le> length (contents
                    (pages_at (snd (add_watermark fs input_file t output_file)) output_file ! i)))"
proof -
  have "pages_at (snd (add_watermark fs input_file t output_file)) output_file
      = map (\<lambda>page. merge_page page (canvas_page letter (overlay_ops t))) pages"
    using assms(3) open_write_nonempty [OF assms(5)]
    by (simp add: add_watermark_result [OF assms] pages_at_def read_pdf_def open_read_def
        node_at_def)
  then show ?thesis
    by (simp add: add_watermark_result [OF assms] merge_page_def canvas_page_def)
qed

theorem add_watermark_preserves_pages_witness:
  "read_pdf one_file_fs [''a.pdf''] = Inr [good_page]
   \<and> [''a.pdf''] \<noteq> watermark_file
   \<and> [''out.pdf''] \<noteq> watermark_file
   \<and> node_at one_file_fs watermark_file \<noteq> Some Dir
   \<and> open_write one_file_fs [''out.pdf''] = Inr ()
   \<and> fst (add_watermark one_file_fs [''a.pdf''] ''DRAFT'' [''out.pdf'']) = Success
   \<and> length (pages_at (snd (add_watermark one_file_fs [''a.pdf''] ''DRAFT'' [''out.pdf'']))
        [''out.pdf'']) = 1
   \<and> contents (pages_at (snd (add_watermark one_file_fs [''a.pdf''] ''DRAFT'' [''out.pdf'']))
        [''out.pdf''] ! 0) = contents good_page @ overlay_ops ''DRAFT''"
proof -
  have a: "[''a.pdf''] \<noteq> watermark_file" and b: "[''out.pdf''] \<noteq> watermark_file"
    and c: "node_at one_file_fs watermark_file \<noteq> Some Dir"
    by (simp_all add: watermark_file_def one_file_fs_def node_at_def)
  from add_watermark_preserves_pages [OF read_one_file_fs a b c write_one_file_fs, of "''DRAFT''"]
    read_one_file_fs a b c write_one_file_fs
  show ?thesis by simp
qed

text \<open>
  Claim C2 does not hold of the code. The temporary overlay file is removed by the last
  statement of the \<^verbatim>\<open>try\<close> block only. When the input exists but is not a PDF, the reader
  raises after the overlay has been saved: the call fails and
  \<^verbatim>\<open>temp_watermark.pdf\<close>, which was not there before, is left behind with the overlay
  page in it.
\<close>

theorem add_watermark_leaves_overlay_on_error:
  "fst (add_watermark bad_input_fs [''bad.pdf''] ''DRAFT'' [''out.pdf'']) = Failure PdfReadError
   \<and> path_exists bad_input_fs watermark_file = False
   \<and> path_exists (snd (add_watermark bad_input_fs [''bad.pdf''] ''DRAFT'' [''out.pdf'']))
        watermark_file = True
   \<and> pages_at (snd (add_watermark bad_input_fs [''bad.pdf''] ''DRAFT'' [''out.pdf'']))
        watermark_file = [canvas_page letter (overlay_ops ''DRAFT'')]"
proof -
  have 0: "node_at bad_input_fs watermark_file \<noteq> Some Dir"
    by (simp add: bad_input_fs_def watermark_file_def node_at_def)
  have 1: "read_pdf (bad_input_fs(watermark_file \<mapsto> x)) [''bad.pdf''] = Inl PdfReadError" for x
    by (simp add: bad_input_fs_def watermark_file_def read_pdf_def open_read_def node_at_def)
  have 2: "path_exists bad_input_fs [''bad.pdf'']"
    by (simp add: bad_input_fs_def path_exists_def node_at_def)
  have 3: "add_watermark bad_input_fs [''bad.pdf''] ''DRAFT'' [''out.pdf'']
      = (Failure PdfReadError,
         bad_input_fs(watermark_file \<mapsto> File (PdfData [canvas_page letter (overlay_ops ''DRAFT'')])))"
    by (simp add: add_watermark_def 2 save_watermark_canvas [OF 0] 1)
  have 4: "watermark_file \<noteq> []" by (simp add: watermark_file_def)
  show ?thesis
    using 4 by (simp add: 3 path_exists_def node_at_def pages_at_write)
       (simp add: bad_input_fs_def watermark_file_def)
qed

section \<open>The sample document\<close>

text \<open>
  Claim C1 does not hold of the code. The label is drawn once, after the loop, on the page
  that is current then. A content of 31 lines gives two pages: the first carries no
  string at the label position, the second carries \<open>Page 2\<close>.
\<close>

theorem create_sample_pdf_labels_last_page_only:
  "fst (create_sample_pdf Map.empty [''sample.pdf''] (replicate 30 (CHR 0x0A))) = Success
   \<and> map labels_on
        (pages_at (snd (create_sample_pdf Map.empty [''sample.pdf''] (replicate 30 (CHR 0x0A))))
           [''sample.pdf''])
       = [[], [page_label 2]]"
  by code_simp

section \<open>Splitting\<close>

lemma chunk_path_inj:
  "chunk_path inp dir k n i = chunk_path inp dir k n j \<Longrightarrow> i = j"
  by (auto simp: chunk_path_def path_join_def dest: output_filename_inj)

lemma butlast_chunk_path: "butlast (chunk_path inp dir k n i) = dir"
  by (simp add: chunk_path_def path_join_def)

lemma length_chunk_path: "length (chunk_path inp dir k n i) = Suc (length dir)"
  by (simp add: chunk_path_def path_join_def)

lemma chunk_path_nonempty: "chunk_path inp dir k n i \<noteq> []"
  by (simp add: chunk_path_def path_join_def)

lemma split_chunk_eq:
  "split_chunk fs pages inp dir k i =
   write_pdf fs (chunk_path inp dir k (length pages) i)
     (map (\<lambda>page_num. pages ! page_num) [i..<min (i + nat k) (length pages)])"
  by (simp add: split_chunk_def chunk_path_def Let_def)

lemma open_write_chunk:
  assumes "node_at fs dir = Some Dir"
    and "node_at fs (chunk_path inp dir k n i) \<noteq> Some Dir"
  shows "open_write fs (chunk_path inp dir k n i) = Inr ()"
  using assms
  by (auto simp: open_write_def butlast_chunk_path split: option.splits node.splits)

lemma split_loop_ok:
  assumes "node_at fs dir = Some Dir"
    and "\<forall>i \<in> set starts. node_at fs (chunk_path inp dir k (length pages) i) \<noteq> Some Dir"
  shows "\<exists>fs'. split_loop fs pages inp dir k starts = (None, fs')
       \<and> (\<forall>i \<in> set starts. fs' (chunk_path inp dir k (length pages) i)
             = Some (File (PdfData
                 (map (\<lambda>page_num. pages ! page_num) [i..<min (i + nat k) (length pages)]))))
       \<and> (\<forall>p. p \<notin> chunk_path inp dir k (length pages) ` set starts \<longrightarrow> fs' p = fs p)"
  using assms
proof (induction starts arbitrary: fs)
  case Nil
  then show ?case by simp
next
  case (Cons i rest)
  let ?cp = "chunk_path inp dir k (length pages)"
  let ?w = "\<lambda>i. map (\<lambda>page_num. pages ! page_num) [i..<min (i + nat k) (length pages)]"
  let ?fs2 = "fs(?cp i \<mapsto> File (PdfData (?w i)))"
  have ow: "open_write fs (?cp i) = Inr ()"
    using Cons.prems by (intro open_write_chunk) simp_all
  have step: "split_chunk fs pages inp dir k i = Inr ?fs2"
    by (simp add: split_chunk_eq write_pdf_ok [OF ow])
  have dir2: "node_at ?fs2 dir = Some Dir"
    using Cons.prems(1) length_chunk_path [of inp dir k "length pages" i]
    by (auto simp: node_at_upd chunk_path_nonempty)
  have rest2: "\<forall>j \<in> set rest. node_at ?fs2 (?cp j) \<noteq> Some Dir"
    using Cons.prems(2) by (simp add: node_at_upd chunk_path_nonempty)
  from Cons.IH [OF dir2 rest2] obtain fs' where
    run: "split_loop ?fs2 pages inp dir k rest = (None, fs')"
    and written: "\<forall>j \<in> set rest. fs' (?cp j) = Some (File (PdfData (?w j)))"
    and frame: "\<forall>p. p \<notin> ?cp ` set rest \<longrightarrow> fs' p = ?fs2 p"
    by blast
  have "fs' (?cp i) = Some (File (PdfData (?w i)))"
  proof (cases "i \<in> set rest")
    case True
    with written show ?thesis by blast
  next
    case False
    then have "?cp i \<notin> ?cp ` set rest"
      using chunk_path_inj by blast
    with frame show ?thesis by simp
  qed
  moreover have "\<forall>p. p \<notin> ?cp ` set (i # rest) \<longrightarrow> fs' p = fs p"
    using frame by auto
  ultimately show ?case
    using written by (simp add: step run)
qed

lemma split_loop_frame:
  "split_loop fs pages inp dir k starts = (r, fs') \<Longrightarrow> length q \<noteq> Suc (length dir) \<Longrightarrow>
   fs' q = fs q"
proof (induction starts arbitrary: fs)
  case Nil
  then show ?case by simp
next
  case (Cons i rest)
  show ?case
  proof (cases "split_chunk fs pages inp dir k i")
    case (Inl e)
    with Cons.prems show ?thesis by simp
  next
    case (Inr fs2)
    then have "fs2 = fs(chunk_path inp dir k (length pages) i \<mapsto> File (PdfData
        (map (\<lambda>page_num. pages ! page_num) [i..<min (i + nat k) (length pages)])))"
      by (simp add: split_chunk_eq write_pdf_Inr)
    then have "fs2 q = fs q"
      using Cons.prems(2) length_chunk_path [of inp dir k "length pages" i] by auto
    moreover from Inr Cons.prems have "split_loop fs2 pages inp dir k rest = (r, fs')"
      by simp
    ultimately show ?thesis
      using Cons.IH Cons.prems(2) by simp
  qed
qed

lemma py_range_pos: "0 < k \<Longrightarrow> py_range n k = Inr (range_from 0 n (nat k))"
  by (simp add: py_range_def)

lemma split_pdf_result:
  assumes "read_pdf fs input_file = Inr pages"
    and "0 < k"
    and "mkdir_parents fs output_dir = Inr fs1"
    and "\<forall>p \<in> set (chunk_paths input_file output_dir k (length pages)). node_at fs p \<noteq> Some Dir"
  shows "\<exists>fs'. split_pdf fs input_file output_dir k = (Success, fs')
       \<and> (\<forall>i \<in> set (range_from 0 (length pages) (nat k)).
             fs' (chunk_path input_file output_dir k (length pages) i)
               = Some (File (PdfData (take (nat k) (drop i pages)))))
       \<and> (\<forall>p. p \<notin> set (chunk_paths input_file output_dir k (length pages)) \<longrightarrow> fs' p = fs1 p)"
proof -
  let ?cp = "chunk_path input_file output_dir k (length pages)"
  let ?starts = "range_from 0 (length pages) (nat k)"
  have ex: "path_exists fs input_file"
    using assms(1) by (rule read_pdf_exists)
  have inp: "node_at fs input_file = Some (File (PdfData pages))"
    using assms(1) by (simp add: read_pdf_Inr_iff)
  then have "input_file \<noteq> []" and "fs input_file = Some (File (PdfData pages))"
    by (auto simp: node_at_def split: if_splits)
  with mkdir_parents_change [OF assms(3), of input_file]
  have "node_at fs1 input_file = Some (File (PdfData pages))"
    by (auto simp: node_at_def)
  then have rd: "read_pdf fs1 input_file = Inr pages"
    by (simp add: read_pdf_Inr_iff)
  have dir: "node_at fs1 output_dir = Some Dir"
    using assms(3) by (rule mkdir_parents_dir)
  have free: "\<forall>i \<in> set ?starts. node_at fs1 (?cp i) \<noteq> Some Dir"
  proof
    fix i assume i: "i \<in> set ?starts"
    then have "node_at fs (?cp i) \<noteq> Some Dir"
      using assms(4) by (simp add: chunk_paths_def)
    moreover have "fs1 (?cp i) = fs (?cp i)"
      using mkdir_parents_change [OF assms(3), of "?cp i"]
      by (auto simp: length_chunk_path)
    ultimately show "node_at fs1 (?cp i) \<noteq> Some Dir"
      by (simp add: node_at_def chunk_path_nonempty)
  qed
  from split_loop_ok [OF dir free] obtain fs' where
    run: "split_loop fs1 pages input_file output_dir k ?starts = (None, fs')"
    and written: "\<forall>i \<in> set ?starts. fs' (?cp i) = Some (File (PdfData
        (map (\<lambda>page_num. pages ! page_num) [i..<min (i + nat k) (length pages)])))"
    and frame: "\<forall>p. p \<notin> ?cp ` set ?starts \<longrightarrow> fs' p = fs1 p"
    by blast
  have "split_pdf fs input_file output_dir k = (Success, fs')"
    using assms(2) by (simp add: split_pdf_def ex assms(3) rd py_range_pos run)
  moreover have "\<forall>i \<in> set ?starts. fs' (?cp i) = Some (File (PdfData (take (nat k) (drop i pages))))"
  proof
    fix i assume i: "i \<in> set ?starts"
    then have "i \<le> length pages"
      using range_from_lt [of i 0 "length pages" "nat k"] by simp
    then show "fs' (?cp i) = Some (File (PdfData (take (nat k) (drop i pages))))"
      using written i by (simp add: chunk_take_drop)
  qed
  moreover have "\<forall>p. p \<notin> set (chunk_paths input_file output_dir k (length pages)) \<longrightarrow> fs' p = fs1 p"
    using frame by (simp add: chunk_paths_def)
  ultimately show ?thesis by blast
qed

lemma length_chunk_paths:
  "0 < k \<Longrightarrow> length (chunk_paths inp dir k n) = (n + nat k - 1) div nat k"
  by (simp add: chunk_paths_def length_range_from)

lemma nth_chunk_paths:
  "0 < k \<Longrightarrow> j < length (chunk_paths inp dir k n) \<Longrightarrow>
   chunk_paths inp dir k n ! j = chunk_path inp dir k n (j * nat k)"
  by (simp add: chunk_paths_def length_range_from nth_range_from)

lemma distinct_range_from: "distinct (range_from i n k)"
proof (induction i n k rule: range_from.induct)
  case (1 i n k)
  show ?case
  proof (cases "k = 0 \<or> n \<le> i")
    case True
    then show ?thesis by (simp add: range_from.simps [of i n k])
  next
    case False
    have "i \<notin> set (range_from (i + k) n k)"
    proof
      assume "i \<in> set (range_from (i + k) n k)"
      then obtain j where "i = i + k + j * k"
        using False by (auto simp: range_from_eq)
      with False show False by simp
    qed
    with False "1.IH" show ?thesis
      by (simp add: range_from.simps [of i n k])
  qed
qed

lemma distinct_chunk_paths: "distinct (chunk_paths inp dir k n)"
  by (auto simp: chunk_paths_def distinct_map distinct_range_from inj_on_def dest: chunk_path_inj)

lemma last_chunk_size:
  assumes "0 < k" and "Suc j = (n + k - 1) div k"
  shows "0 < n - j * k \<and> n - j * k \<le> k"
proof -
  have "Suc j * k + (n + k - 1) mod k = n + k - 1"
    using assms(2) by simp
  moreover have "(n + k - 1) mod k < k"
    using assms(1) by simp
  ultimately have "j * k + k \<le> n + k - 1" and "n + k - 1 < j * k + k + k"
    by simp_all
  with assms(1) show ?thesis by linarith
qed

lemma full_chunk_size:
  assumes "0 < k" and "Suc j < (n + k - 1) div k"
  shows "j * k + k \<le> n"
proof -
  have a: "((n + k - 1) div k) * k \<le> n + k - 1"
    by simp
  from assms(2) have b: "(Suc (Suc j)) * k \<le> ((n + k - 1) div k) * k"
    by (intro mult_le_mono1) simp
  from b a have "(Suc (Suc j)) * k \<le> n + k - 1"
    by (rule order_trans)
  then have "j * k + k + k \<le> n + k - 1"
    by simp
  with assms(1) show ?thesis by linarith
qed

lemma in_chunk_paths:
  "p \<in> set (chunk_paths inp dir k n) \<Longrightarrow> \<exists>name. p = dir @ [name]"
  by (auto simp: chunk_paths_def chunk_path_def path_join_def)

lemma read_pdf_of_file:
  "p \<noteq> [] \<Longrightarrow> fs p = Some (File (PdfData ps)) \<Longrightarrow> read_pdf fs p = Inr ps"
  by (simp add: read_pdf_Inr_iff node_at_def)

text \<open>
  Claim C5. For a document of \<open>n\<close> pages and \<open>k \<ge> 1\<close>, with the output directory
  creatable and no directory in the way of a chunk file, \<^verbatim>\<open>split_pdf\<close> succeeds and writes
  exactly \<open>\<lceil>n / k\<rceil>\<close> distinct files and nothing else. The file of chunk \<open>j\<close> holds the
  pages \<open>[j k, (j + 1) k)\<close> of the input, in order: \<open>k\<close> pages for every chunk but the
  last, and between 1 and \<open>k\<close> pages for the last.
\<close>

theorem split_pdf_chunks:
  assumes "read_pdf fs input_file = Inr pages"
    and "1 \<le> k"
    and "mkdir_parents fs output_dir = Inr fs1"
    and "\<forall>p \<in> set (chunk_paths input_file output_dir k (length pages)). node_at fs p \<noteq> Some Dir"
  shows "fst (split_pdf fs input_file output_dir k) = Success
       \<and> int (length (chunk_paths input_file output_dir k (length pages)))
           = \<lceil>real (length pages) / of_int k\<rceil>
       \<and> distinct (chunk_paths input_file output_dir k (length pages))
       \<and> (\<forall>j < length (chunk_paths input_file output_dir k (length pages)).
            read_pdf (snd (split_pdf fs input_file output_dir k))
                (chunk_paths input_file output_dir k (length pages) ! j)
              = Inr (take (nat k) (drop (j * nat k) pages))
          \<and> (Suc j < length (chunk_paths input_file output_dir k (length pages)) \<longrightarrow>
                length (take (nat k) (drop (j * nat k) pages)) = nat k)
          \<and> (Suc j = length (chunk_paths input_file output_dir k (length pages)) \<longrightarrow>
                0 < length (take (nat k) (drop (j * nat k) pages))
              \<and> length (take (nat k) (drop (j * nat k) pages)) \<le> nat k))
       \<and> (\<forall>p. p \<notin> set (chunk_paths input_file output_dir k (length pages)) \<longrightarrow>
            snd (split_pdf fs input_file output_dir k) p = fs1 p)"
proof -
  let ?files = "chunk_paths input_file output_dir k (length pages)"
  let ?K = "nat k"
  have k: "0 < k" and K: "0 < ?K" using assms(2) by simp_all
  from split_pdf_result [OF assms(1) k assms(3,4)] obtain fs' where
    run: "split_pdf fs input_file output_dir k = (Success, fs')"
    and written: "\<forall>i \<in> set (range_from 0 (length pages) ?K).
        fs' (chunk_path input_file output_dir k (length pages) i)
          = Some (File (PdfData (take ?K (drop i pages))))"
    and frame: "\<forall>p. p \<notin> set ?files \<longrightarrow> fs' p = fs1 p"
    by blast
  have len: "length ?files = (length pages + ?K - 1) div ?K"
    using k by (rule length_chunk_paths)
  have "int (length ?files) = \<lceil>real (length pages) / real ?K\<rceil>"
    using K by (simp only: len ceil_div)
  moreover have "real ?K = of_int k"
    using k by simp
  ultimately have count: "int (length ?files) = \<lceil>real (length pages) / of_int k\<rceil>"
    by simp
  have chunk: "read_pdf fs' (?files ! j) = Inr (take ?K (drop (j * ?K) pages))"
    if "j < length ?files" for j
  proof -
    have "j * ?K \<in> set (range_from 0 (length pages) ?K)"
      using that K nth_range_from [of ?K j "length pages"]
      by (metis len length_range_from nth_mem)
    with written have "fs' (chunk_path input_file output_dir k (length pages) (j * ?K))
        = Some (File (PdfData (take ?K (drop (j * ?K) pages))))"
      by blast
    then show ?thesis
      using that k by (simp add: nth_chunk_paths read_pdf_of_file chunk_path_nonempty)
  qed
  have full: "length (take ?K (drop (j * ?K) pages)) = ?K" if "Suc j < length ?files" for j
    using full_chunk_size [OF K, of j "length pages"] that by (simp add: len)
  have rest: "0 < length (take ?K (drop (j * ?K) pages))
      \<and> length (take ?K (drop (j * ?K) pages)) \<le> ?K" if "Suc j = length ?files" for j
    using last_chunk_size [OF K, of j "length pages"] that by (simp add: len)
  show ?thesis
    using count chunk full rest frame by (simp add: run distinct_chunk_paths)
qed

lemma read_report_fs: "read_pdf report_fs [''report.pdf''] = Inr five_pages"
  by (simp add: report_fs_def read_pdf_Inr_iff node_at_def)

lemma mkdir_report_fs: "mkdir_parents report_fs [''out''] = Inr report_out_fs"
  by (subst mkdir_parents.simps) (simp add: report_out_fs_def report_fs_def node_at_def)

lemma chunks_free_report_fs:
  "\<forall>p \<in> set (chunk_paths [''report.pdf''] [''out''] k n). node_at report_fs p \<noteq> Some Dir"
  by (auto simp: report_fs_def node_at_def dest!: in_chunk_paths)

lemma report_chunk_paths:
  "chunk_paths [''report.pdf''] [''out''] 2 5 =
     [[''out'', ''report_pages_1-2.pdf''], [''out'', ''report_pages_3-4.pdf''],
      [''out'', ''report_pages_5-5.pdf'']]"
  by code_simp

theorem split_pdf_chunks_witness:
  "read_pdf report_fs [''report.pdf''] = Inr five_pages
   \<and> (1::int) \<le> 2
   \<and> mkdir_parents report_fs [''out''] = Inr report_out_fs
   \<and> fst (split_pdf report_fs [''report.pdf''] [''out''] 2) = Success
   \<and> map (\<lambda>p. map_sum id length (read_pdf (snd (split_pdf report_fs [''report.pdf''] [''out''] 2)) p))
        (chunk_paths [''report.pdf''] [''out''] 2 5)
       = [Inr 2, Inr 2, Inr 1]"
proof -
  have n: "length five_pages = 5" by (simp add: five_pages_def)
  have k: "(1::int) \<le> 2" by simp
  note h = chunks_free_report_fs [of 2 "length five_pages"]
  note t = split_pdf_chunks [OF read_report_fs k mkdir_report_fs h]
  have l: "length (chunk_paths [''report.pdf''] [''out''] 2 5) = 3"
    by (simp add: report_chunk_paths)
  from t have s: "fst (split_pdf report_fs [''report.pdf''] [''out''] 2) = Success"
    by blast
  from t have r: "read_pdf (snd (split_pdf report_fs [''report.pdf''] [''out''] 2))
      (chunk_paths [''report.pdf''] [''out''] 2 5 ! j) = Inr (take 2 (drop (j * 2) five_pages))"
    if "j < 3" for j
    using that by (simp add: n l)
  have "map (\<lambda>p. map_sum id length (read_pdf (snd (split_pdf report_fs [''report.pdf''] [''out''] 2)) p))
        (chunk_paths [''report.pdf''] [''out''] 2 5) = [Inr 2, Inr 2, Inr 1]"
    using r [of 0] r [of 1] r [of 2]
    by (simp add: report_chunk_paths five_pages_def)
  with read_report_fs k mkdir_report_fs s show ?thesis
    by blast
qed

text \<open>
  Claim C6. For \<open>k \<ge> 1\<close>, when \<^verbatim>\<open>split_pdf\<close> has split a document, merging the chunk
  files in chunk order with \<^verbatim>\<open>merge_pdfs\<close>, into an output that is not itself one of the
  chunk files, succeeds and writes a document with exactly the pages of the original, in
  the original order.
\<close>

theorem merge_of_split_restores_pages:
  assumes "read_pdf fs input_file = Inr pages"
    and "1 \<le> k"
    and "mkdir_parents fs output_dir = Inr fs1"
    and "\<forall>p \<in> set (chunk_paths input_file output_dir k (length pages)). node_at fs p \<noteq> Some Dir"
    and "merged_file \<notin> set (chunk_paths input_file output_dir k (length pages))"
    and "open_write (snd (split_pdf fs input_file output_dir k)) merged_file = Inr ()"
  shows "fst (split_pdf fs input_file output_dir k) = Success
       \<and> fst (merge_pdfs (snd (split_pdf fs input_file output_dir k))
              (chunk_paths input_file output_dir k (length pages)) merged_file) = Success
       \<and> read_pdf (snd (merge_pdfs (snd (split_pdf fs input_file output_dir k))
              (chunk_paths input_file output_dir k (length pages)) merged_file)) merged_file
           = Inr pages"
proof -
  let ?K = "nat k"
  let ?cp = "chunk_path input_file output_dir k (length pages)"
  let ?starts = "range_from 0 (length pages) ?K"
  let ?files = "chunk_paths input_file output_dir k (length pages)"
  have k: "0 < k" and K: "0 < ?K" using assms(2) by simp_all
  from split_pdf_result [OF assms(1) k assms(3,4)] obtain fs' where
    run: "split_pdf fs input_file output_dir k = (Success, fs')"
    and written: "\<forall>i \<in> set ?starts. fs' (?cp i) = Some (File (PdfData (take ?K (drop i pages))))"
    by blast
  have chunk: "\<forall>i \<in> set ?starts. read_pdf fs' (?cp i) = Inr (take ?K (drop i pages))"
    using written by (simp add: read_pdf_of_file chunk_path_nonempty)
  then have loads: "\<forall>g \<in> set ?files. \<exists>ps. read_pdf fs' g = Inr ps"
    by (auto simp: chunk_paths_def)
  from assms(6) have ow: "open_write fs' merged_file = Inr ()"
    by (simp add: run)
  have "map (pages_at fs') ?files = map (\<lambda>i. take ?K (drop i pages)) ?starts"
    using chunk by (simp add: chunk_paths_def pages_at_def)
  then have "concat (map (pages_at fs') ?files)
      = concat (map (\<lambda>i. take ?K (drop i pages)) ?starts)"
    by (simp only:)
  also have "\<dots> = drop 0 pages"
    using K by (rule concat_chunks)
  finally have all: "concat (map (pages_at fs') ?files) = pages"
    by simp
  have "merge_pdfs fs' ?files merged_file = (Success, fs'(merged_file \<mapsto> File (PdfData pages)))"
    using merge_pdfs_success [OF loads assms(5) ow] by (simp only: all)
  then show ?thesis
    using open_write_nonempty [OF ow] by (simp add: run read_after_write)
qed

lemma write_merged_report:
  "open_write (snd (split_pdf report_fs [''report.pdf''] [''out''] 2)) [''merged.pdf''] = Inr ()"
proof -
  have k: "(0::int) < 2" by simp
  from split_pdf_result [OF read_report_fs k mkdir_report_fs
      chunks_free_report_fs [of 2 "length five_pages"]]
  obtain fs' where run: "split_pdf report_fs [''report.pdf''] [''out''] 2 = (Success, fs')"
    and frame: "\<forall>p. p \<notin> set (chunk_paths [''report.pdf''] [''out''] 2 (length five_pages)) \<longrightarrow>
        fs' p = report_out_fs p"
    by blast
  have "[''merged.pdf''] \<notin> set (chunk_paths [''report.pdf''] [''out''] 2 (length five_pages))"
    by (auto dest!: in_chunk_paths)
  with frame have "fs' [''merged.pdf''] = report_out_fs [''merged.pdf'']"
    by blast
  then have "node_at fs' [''merged.pdf''] = None"
    by (simp add: node_at_def report_out_fs_def report_fs_def)
  then show ?thesis
    by (simp add: run open_write_def node_at_def)
qed

theorem merge_of_split_restores_pages_witness:
  "read_pdf report_fs [''report.pdf''] = Inr five_pages
   \<and> (1::int) \<le> 2
   \<and> mkdir_parents report_fs [''out''] = Inr report_out_fs
   \<and> [''merged.pdf''] \<notin> set (chunk_paths [''report.pdf''] [''out''] 2 (length five_pages))
   \<and> open_write (snd (split_pdf report_fs [''report.pdf''] [''out''] 2)) [''merged.pdf''] = Inr ()
   \<and> read_pdf (snd (merge_pdfs (snd (split_pdf report_fs [''report.pdf''] [''out''] 2))
          (chunk_paths [''report.pdf''] [''out''] 2 (length five_pages)) [''merged.pdf'']))
        [''merged.pdf''] = Inr five_pages"
proof -
  have k: "(1::int) \<le> 2" by simp
  note h = chunks_free_report_fs [of 2 "length five_pages"]
  have m: "[''merged.pdf''] \<notin> set (chunk_paths [''report.pdf''] [''out''] 2 (length five_pages))"
    by (auto dest!: in_chunk_paths)
  from merge_of_split_restores_pages [OF read_report_fs k mkdir_report_fs h m write_merged_report]
    read_report_fs k mkdir_report_fs m write_merged_report
  show ?thesis by blast
qed

lemma split_pdf_frame:
  assumes "path_exists fs input_file"
    and "mkdir_parents fs output_dir = Inr fs1"
    and "length q \<noteq> Suc (length output_dir)"
  shows "snd (split_pdf fs input_file output_dir k) q = fs1 q"
proof (cases "read_pdf fs1 input_file")
  case (Inl e)
  with assms(1,2) show ?thesis by (simp add: split_pdf_def)
next
  case (Inr pages)
  show ?thesis
  proof (cases "py_range (length pages) k")
    case (Inl e)
    with Inr assms(1,2) show ?thesis by (simp add: split_pdf_def)
  next
    case r: (Inr starts)
    obtain res fs2 where
      loop: "split_loop fs1 pages input_file output_dir k starts = (res, fs2)"
      by (cases "split_loop fs1 pages input_file output_dir k starts")
    from split_loop_frame [OF loop assms(3)] have "fs2 q = fs1 q" .
    with Inr r loop assms(1,2) show ?thesis
      by (cases res) (simp_all add: split_pdf_def)
  qed
qed

text \<open>
  Claim C10. Let the input path exist, the file system be well formed and no prefix of
  the output directory be a regular file; the output directory itself may exist or not.
  After \<^verbatim>\<open>split_pdf\<close> the output directory and all its parents are directories, whatever
  the call returns. If moreover the input loads, \<open>k \<ge> 1\<close> and no directory is in the way
  of a chunk file, the call succeeds and every chunk file is a PDF file directly inside
  the output directory.
\<close>

theorem split_pdf_creates_output_dir:
  assumes "path_exists fs input_file"
    and "fs_ok fs"
    and "\<forall>m \<le> length output_dir. \<forall>d. node_at fs (take m output_dir) \<noteq> Some (File d)"
  shows "(\<forall>m \<le> length output_dir.
            node_at (snd (split_pdf fs input_file output_dir k)) (take m output_dir) = Some Dir)
       \<and> (\<forall>pages. read_pdf fs input_file = Inr pages \<and> 1 \<le> k
              \<and> (\<forall>p \<in> set (chunk_paths input_file output_dir k (length pages)).
                    node_at fs p \<noteq> Some Dir)
            \<longrightarrow> fst (split_pdf fs input_file output_dir k) = Success
              \<and> (\<forall>p \<in> set (chunk_paths input_file output_dir k (length pages)).
                    butlast p = output_dir
                  \<and> (\<exists>ps. read_pdf (snd (split_pdf fs input_file output_dir k)) p = Inr ps)))"
proof -
  from mkdir_parents_creates [OF assms(2,3)] obtain fs1 where
    mk: "mkdir_parents fs output_dir = Inr fs1"
    and dirs: "\<forall>m \<le> length output_dir. node_at fs1 (take m output_dir) = Some Dir"
    by blast
  have "node_at (snd (split_pdf fs input_file output_dir k)) (take m output_dir) = Some Dir"
    if "m \<le> length output_dir" for m
  proof -
    have "length (take m output_dir) \<noteq> Suc (length output_dir)"
      by simp
    from split_pdf_frame [OF assms(1) mk this, of k] dirs [rule_format, OF that]
    show ?thesis
      by (auto simp: node_at_def split: if_splits)
  qed
  moreover have "fst (split_pdf fs input_file output_dir k) = Success
      \<and> (\<forall>p \<in> set (chunk_paths input_file output_dir k (length pages)).
            butlast p = output_dir
          \<and> (\<exists>ps. read_pdf (snd (split_pdf fs input_file output_dir k)) p = Inr ps))"
    if rd: "read_pdf fs input_file = Inr pages" and k: "1 \<le> k"
      and free: "\<forall>p \<in> set (chunk_paths input_file output_dir k (length pages)).
          node_at fs p \<noteq> Some Dir"
    for pages
  proof -
    from k have k0: "0 < k" by simp
    from split_pdf_result [OF rd k0 mk free] obtain fs' where
      run: "split_pdf fs input_file output_dir k = (Success, fs')"
      and written: "\<forall>i \<in> set (range_from 0 (length pages) (nat k)).
          fs' (chunk_path input_file output_dir k (length pages) i)
            = Some (File (PdfData (take (nat k) (drop i pages))))"
      by blast
    have "butlast p = output_dir \<and> (\<exists>ps. read_pdf fs' p = Inr ps)"
      if "p \<in> set (chunk_paths input_file output_dir k (length pages))" for p
    proof -
      from that obtain i where i: "i \<in> set (range_from 0 (length pages) (nat k))"
        and p: "p = chunk_path input_file output_dir k (length pages) i"
        by (auto simp: chunk_paths_def)
      from written i have "fs' p = Some (File (PdfData (take (nat k) (drop i pages))))"
        by (simp add: p)
      then have "read_pdf fs' p = Inr (take (nat k) (drop i pages))"
        by (simp add: read_pdf_of_file p chunk_path_nonempty)
      then show ?thesis
        by (auto simp: p butlast_chunk_path)
    qed
    then show ?thesis by (simp add: run)
  qed
  ultimately show ?thesis by blast
qed

lemma fs_ok_report_fs: "fs_ok report_fs"
  by (simp add: fs_ok_def report_fs_def node_at_def)

lemma fs_ok_report_out_fs: "fs_ok report_out_fs"
  by (simp add: fs_ok_def report_out_fs_def report_fs_def node_at_def)

lemma exists_report: "path_exists report_fs [''report.pdf'']"
  using read_report_fs by (rule read_pdf_exists)

lemma report_parts_chunk_paths:
  "chunk_paths [''report.pdf''] [''out'', ''parts''] 2 5 =
     [[''out'', ''parts'', ''report_pages_1-2.pdf''],
      [''out'', ''parts'', ''report_pages_3-4.pdf''],
      [''out'', ''parts'', ''report_pages_5-5.pdf'']]"
  by code_simp

theorem split_pdf_creates_output_dir_witness:
  "path_exists report_fs [''report.pdf'']
   \<and> node_at report_fs [''out''] = None
   \<and> node_at (snd (split_pdf report_fs [''report.pdf''] [''out'', ''parts''] 2)) [''out''] = Some Dir
   \<and> node_at (snd (split_pdf report_fs [''report.pdf''] [''out'', ''parts''] 2)) [''out'', ''parts'']
       = Some Dir
   \<and> fst (split_pdf report_fs [''report.pdf''] [''out'', ''parts''] 2) = Success
   \<and> (\<exists>ps. read_pdf (snd (split_pdf report_fs [''report.pdf''] [''out'', ''parts''] 2))
         [''out'', ''parts'', ''report_pages_5-5.pdf''] = Inr ps)
   \<and> node_at report_out_fs [''out''] = Some Dir
   \<and> fst (split_pdf report_out_fs [''report.pdf''] [''out''] 2) = Success"
proof -
  have nofile: "\<forall>m \<le> length [''out'', ''parts'']. \<forall>d.
      node_at report_fs (take m [''out'', ''parts'']) \<noteq> Some (File d)"
  proof (intro allI impI)
    fix m :: nat and d
    assume "m \<le> length [''out'', ''parts'']"
    then have "m = 0 \<or> m = 1 \<or> m = 2" by auto
    then show "node_at report_fs (take m [''out'', ''parts'']) \<noteq> Some (File d)"
      by (auto simp: node_at_def report_fs_def)
  qed
  have free: "\<forall>p \<in> set (chunk_paths [''report.pdf''] [''out'', ''parts''] 2 (length five_pages)).
      node_at report_fs p \<noteq> Some Dir"
    by (auto simp: report_fs_def node_at_def dest!: in_chunk_paths)
  have none: "node_at report_fs [''out''] = None"
    by (simp add: node_at_def report_fs_def)
  note t = split_pdf_creates_output_dir [OF exists_report fs_ok_report_fs nofile, of 2]
  from t have dd: "\<forall>m \<le> length [''out'', ''parts''].
      node_at (snd (split_pdf report_fs [''report.pdf''] [''out'', ''parts''] 2))
        (take m [''out'', ''parts'']) = Some Dir"
    by blast
  from dd [rule_format, of 1]
  have d1: "node_at (snd (split_pdf report_fs [''report.pdf''] [''out'', ''parts''] 2)) [''out'']
      = Some Dir"
    by simp
  from dd [rule_format, of 2]
  have d2: "node_at (snd (split_pdf report_fs [''report.pdf''] [''out'', ''parts''] 2))
      [''out'', ''parts''] = Some Dir"
    by simp
  from t [THEN conjunct2, rule_format, of five_pages] read_report_fs free
  have all: "fst (split_pdf report_fs [''report.pdf''] [''out'', ''parts''] 2) = Success
    \<and> (\<forall>p \<in> set (chunk_paths [''report.pdf''] [''out'', ''parts''] 2 (length five_pages)).
         butlast p = [''out'', ''parts'']
       \<and> (\<exists>ps. read_pdf (snd (split_pdf report_fs [''report.pdf''] [''out'', ''parts''] 2)) p = Inr ps))"
    by simp
  have "length five_pages = 5"
    by (simp add: five_pages_def)
  then have "[''out'', ''parts'', ''report_pages_5-5.pdf'']
      \<in> set (chunk_paths [''report.pdf''] [''out'', ''parts''] 2 (length five_pages))"
    by (simp add: report_parts_chunk_paths)
  with all have "fst (split_pdf report_fs [''report.pdf''] [''out'', ''parts''] 2) = Success
    \<and> (\<exists>ps. read_pdf (snd (split_pdf report_fs [''report.pdf''] [''out'', ''parts''] 2))
         [''out'', ''parts'', ''report_pages_5-5.pdf''] = Inr ps)"
    by blast
  moreover have "node_at report_out_fs [''out''] = Some Dir"
    by (simp add: report_out_fs_def node_at_def)
  moreover have "fst (split_pdf report_out_fs [''report.pdf''] [''out''] 2) = Success"
  proof -
    have rd: "read_pdf report_out_fs [''report.pdf''] = Inr five_pages"
      by (simp add: report_out_fs_def report_fs_def read_pdf_Inr_iff node_at_def)
    have nf: "\<forall>m \<le> length [''out'']. \<forall>d. node_at report_out_fs (take m [''out'']) \<noteq> Some (File d)"
    proof (intro allI impI)
      fix m :: nat and d
      assume "m \<le> length [''out'']"
      then have "m = 0 \<or> m = 1" by auto
      then show "node_at report_out_fs (take m [''out'']) \<noteq> Some (File d)"
        by (auto simp: node_at_def report_out_fs_def)
    qed
    have fr: "\<forall>p \<in> set (chunk_paths [''report.pdf''] [''out''] 2 (length five_pages)).
        node_at report_out_fs p \<noteq> Some Dir"
      by (auto simp: report_out_fs_def report_fs_def node_at_def dest!: in_chunk_paths)
    from split_pdf_creates_output_dir [OF read_pdf_exists [OF rd] fs_ok_report_out_fs nf, of 2,
        THEN conjunct2, rule_format, of five_pages] rd fr
    show ?thesis by simp
  qed
  ultimately show ?thesis
    using exists_report none d1 d2 by simp
qed

end
